theory Spec2Isabelle
  imports Complex_Main
begin

section \<open>Python values used by the transcript code\<close>

text \<open>
  A Python \<open>str\<close> is a sequence of Unicode code points, so it is a list of naturals
  here; \<open>ascii\<close> embeds the ASCII literals of the source. A Python \<open>float\<close> is the real
  number it denotes, a binary64 value; the special values \<open>nan\<close> and \<open>inf\<close> are left out.
\<close>

type_synonym pystr = "nat list"

definition ascii :: "string \<Rightarrow> pystr" where
  "ascii s = map of_char s"

text \<open>\<open>str.isspace\<close> of one code point: the code points Python treats as whitespace.\<close>

definition isspace :: "nat \<Rightarrow> bool" where
  "isspace c \<longleftrightarrow>
     (9 \<le> c \<and> c \<le> 13) \<or> (28 \<le> c \<and> c \<le> 32) \<or> c = 133 \<or> c = 160 \<or> c = 5760 \<or>
     (8192 \<le> c \<and> c \<le> 8202) \<or> c = 8232 \<or> c = 8233 \<or> c = 8239 \<or> c = 8287 \<or> c = 12288"

text \<open>\<open>s.strip()\<close>: leading and trailing whitespace removed.\<close>

definition strip :: "pystr \<Rightarrow> pystr" where
  "strip s = rev (dropWhile isspace (rev (dropWhile isspace s)))"

text \<open>\<open>sep.join(parts)\<close>.\<close>

fun join :: "pystr \<Rightarrow> pystr list \<Rightarrow> pystr" where
  "join sep [] = []"
| "join sep [x] = x"
| "join sep (x # y # ys) = x @ sep @ join sep (y # ys)"

text \<open>
  \<open>range(i, n, k)\<close> for a positive step. Python raises on a zero step; the only call
  is behind the guard \<open>max_words <= 0\<close>, so the step is positive there.
\<close>

function range_step :: "nat \<Rightarrow> nat \<Rightarrow> nat \<Rightarrow> nat list" where
  "range_step i n k = (if 0 < k \<and> i < n then i # range_step (i + k) n k else [])"
  by pat_completeness auto
termination
  by (relation "measure (\<lambda>(i, n, k). n - i)") auto

declare range_step.simps [simp del]

text \<open>\<open>xs[i:j]\<close> for indices that are not negative: out-of-range bounds are clamped.\<close>

definition slice :: "'a list \<Rightarrow> nat \<Rightarrow> nat \<Rightarrow> 'a list" where
  "slice xs i j = drop i (take j xs)"

datatype error = ValueError string | IndexError


section \<open>models.py\<close>

record WordTimestamp =
  w_start :: real
  w_end :: real
  w_word :: pystr

record TranscriptSegment =
  seg_start :: real
  seg_end :: real
  seg_text :: pystr
  seg_words :: "WordTimestamp list option"

record Transcript =
  segments :: "TranscriptSegment list"
  language :: "pystr option"

text \<open>
  The value that \<open>to_dict\<close> returns: a dictionary is the list of its items in
  insertion order, with the field names of the source as keys.
\<close>

datatype pyval =
    PNone
  | PFloat real
  | PStr pystr
  | PList "pyval list"
  | PDict "(string \<times> pyval) list"

text \<open>\<open>d[k] = v\<close>: an existing key keeps its place, a new key goes last.\<close>

fun dict_set :: "(string \<times> pyval) list \<Rightarrow> string \<Rightarrow> pyval \<Rightarrow> (string \<times> pyval) list" where
  "dict_set [] k v = [(k, v)]"
| "dict_set ((k', v') # d) k v =
     (if k' = k then (k', v) # d else (k', v') # dict_set d k v)"

text \<open>\<open>list(d)\<close> and \<open>d.get(k)\<close>, to read a dictionary.\<close>

fun dict_keys :: "pyval \<Rightarrow> string list" where
  "dict_keys (PDict d) = map fst d"
| "dict_keys _ = []"

fun dict_get :: "pyval \<Rightarrow> string \<Rightarrow> pyval option" where
  "dict_get (PDict d) k = map_of d k"
| "dict_get _ k = None"

definition word_to_dict :: "WordTimestamp \<Rightarrow> pyval" where
  "word_to_dict w =
     PDict [(''start'', PFloat (w_start w)),
            (''end'', PFloat (w_end w)),
            (''word'', PStr (w_word w))]"

definition segment_to_dict :: "TranscriptSegment \<Rightarrow> pyval" where
  "segment_to_dict s =
     (let data = [(''start'', PFloat (seg_start s)),
                  (''end'', PFloat (seg_end s)),
                  (''text'', PStr (seg_text s))]
      in case seg_words s of
           None \<Rightarrow> PDict data
         | Some ws \<Rightarrow> PDict (dict_set data ''words'' (PList (map word_to_dict ws))))"

definition transcript_to_dict :: "Transcript \<Rightarrow> pyval" where
  "transcript_to_dict t =
     PDict [(''language'', (case language t of None \<Rightarrow> PNone | Some l \<Rightarrow> PStr l)),
            (''segments'', PList (map segment_to_dict (segments t)))]"


section \<open>segmenter.py\<close>

text \<open>
  The body of the inner loop: one output segment from one chunk. \<open>chunk[0]\<close> and
  \<open>chunk[-1]\<close> raise \<open>IndexError\<close> on an empty list.
\<close>

definition chunk_segment :: "WordTimestamp list \<Rightarrow> error + TranscriptSegment" where
  "chunk_segment chunk =
     (case chunk of
        [] \<Rightarrow> Inl IndexError
      | c # cs \<Rightarrow>
          Inr \<lparr>seg_start = w_start c,
               seg_end = w_end (last chunk),
               seg_text = strip (join (ascii '' '') (map (\<lambda>w. strip (w_word w)) chunk)),
               seg_words = Some chunk\<rparr>)"

text \<open>
  \<open>for i in range(0, len(words), max_words)\<close>: the loop over the start indices,
  appending to \<open>split_segments\<close> (the accumulator).
\<close>

fun chunk_loop ::
  "WordTimestamp list \<Rightarrow> nat \<Rightarrow> nat list \<Rightarrow> TranscriptSegment list
     \<Rightarrow> error + TranscriptSegment list" where
  "chunk_loop words m [] acc = Inr acc"
| "chunk_loop words m (i # is) acc =
     (case chunk_segment (slice words i (i + m)) of
        Inl e \<Rightarrow> Inl e
      | Inr s \<Rightarrow> chunk_loop words m is (acc @ [s]))"

text \<open>\<open>for segment in segments\<close>: the outer loop.\<close>

fun segment_loop ::
  "TranscriptSegment list \<Rightarrow> nat \<Rightarrow> TranscriptSegment list
     \<Rightarrow> error + TranscriptSegment list" where
  "segment_loop [] m acc = Inr acc"
| "segment_loop (segment # rest) m acc =
     (case seg_words segment of
        None \<Rightarrow> Inl (ValueError ''Word-level timestamps are required to split by max words.'')
      | Some [] \<Rightarrow> Inl (ValueError ''Word-level timestamps are required to split by max words.'')
      | Some (v # vs) \<Rightarrow>
          (let words = filter (\<lambda>w. strip (w_word w) \<noteq> []) (v # vs) in
           if words = [] then segment_loop rest m acc
           else
             (case chunk_loop words m (range_step 0 (length words) m) acc of
                Inl e \<Rightarrow> Inl e
              | Inr acc' \<Rightarrow> segment_loop rest m acc')))"

definition split_segments_by_max_words ::
  "TranscriptSegment list \<Rightarrow> int \<Rightarrow> error + TranscriptSegment list" where
  "split_segments_by_max_words segs max_words =
     (if max_words \<le> 0 then Inl (ValueError ''max_words must be greater than 0'')
      else segment_loop segs (nat max_words) [])"


section \<open>formatters.py\<close>

text \<open>
  Binary64 arithmetic rounds each result to the nearest value with a 53-bit significand,
  ties to the even one: \<open>binary64_exponent y\<close> is the exponent of the last place of
  \<open>y\<close> (that of the subnormal numbers below \<open>2 powi - 1022\<close>), and \<open>binary64_round\<close>
  rounds to a multiple of that place. A decimal literal denotes the rounding of its value,
  and \<open>a * b\<close>, \<open>a + b\<close>, \<open>a - b\<close> and \<open>a / b\<close> on floats are the roundings of the
  exact results (no operation of the source overflows).
\<close>

definition round_half_even :: "real \<Rightarrow> int" where
  "round_half_even x =
     (let f = \<lfloor>x\<rfloor> in
      if x - of_int f < 1/2 then f
      else if 1/2 < x - of_int f then f + 1
      else if even f then f else f + 1)"

definition binary64_exponent :: "real \<Rightarrow> int" where
  "binary64_exponent y = max \<lfloor>log 2 \<bar>y\<bar>\<rfloor> (- 1022) - 52"

definition binary64_round :: "real \<Rightarrow> real" where
  "binary64_round y =
     (if y = 0 then 0
      else of_int (round_half_even (y / 2 powi binary64_exponent y)) * 2 powi binary64_exponent y)"

definition float_mul :: "real \<Rightarrow> real \<Rightarrow> real" where
  "float_mul a b = binary64_round (a * b)"

definition float_add :: "real \<Rightarrow> real \<Rightarrow> real" where
  "float_add a b = binary64_round (a + b)"

definition float_sub :: "real \<Rightarrow> real \<Rightarrow> real" where
  "float_sub a b = binary64_round (a - b)"

definition float_div :: "real \<Rightarrow> real \<Rightarrow> real" where
  "float_div a b = binary64_round (a / b)"

text \<open>
  C's \<open>fmod(x, y)\<close>: the remainder of the quotient truncated towards zero, with the sign
  of \<open>x\<close>; it is exact in binary64.
\<close>

definition c_fmod :: "real \<Rightarrow> real \<Rightarrow> real" where
  "c_fmod x y = x - y * of_int (if 0 \<le> x / y then \<lfloor>x / y\<rfloor> else \<lceil>x / y\<rceil>)"

text \<open>
  Python's \<open>a % b\<close> and \<open>a // b\<close> on floats, as CPython computes them from \<open>fmod\<close>. The
  remainder takes the sign of the divisor: when the signs differ the divisor is added to
  it, a float addition. The quotient is \<open>(a - md) / b\<close> in float arithmetic, one less
  when the remainder was adjusted, then snapped to the nearest whole number. Division by
  zero raises; every divisor of the source is one of the literals \<open>3600\<close>, \<open>60\<close> and \<open>1\<close>.
\<close>

definition py_mod :: "real \<Rightarrow> real \<Rightarrow> real" where
  "py_mod a b =
     (let md = c_fmod a b in
      if md \<noteq> 0 \<and> (b < 0) \<noteq> (md < 0) then float_add md b else md)"

definition py_floordiv :: "real \<Rightarrow> real \<Rightarrow> real" where
  "py_floordiv a b =
     (let md = c_fmod a b;
          dv0 = float_div (float_sub a md) b;
          dv = (if md \<noteq> 0 \<and> (b < 0) \<noteq> (md < 0) then float_sub dv0 1 else dv0)
      in if dv \<noteq> 0
         then (let floordiv = of_int \<lfloor>dv\<rfloor>
               in if 1/2 < float_sub dv floordiv then float_add floordiv 1 else floordiv)
         else 0)"

text \<open>\<open>int(x)\<close> of a float: truncation towards zero.\<close>

definition py_int :: "real \<Rightarrow> int" where
  "py_int x = (if 0 \<le> x then \<lfloor>x\<rfloor> else \<lceil>x\<rceil>)"

text \<open>The decimal digits of a natural number, as code points (\<open>48\<close> is \<open>0\<close>).\<close>

function digits :: "nat \<Rightarrow> pystr" where
  "digits n = (if n < 10 then [48 + n] else digits (n div 10) @ [48 + n mod 10])"
  by pat_completeness auto
termination
  by (relation "measure id") auto

declare digits.simps [simp del]

text \<open>
  The format specification \<open>0Nd\<close> of an f-string (\<open>f"{n:02d}"\<close> is \<open>format_d 2 n\<close>):
  the sign first, then zeros up to the width, then the digits. \<open>f"{n}"\<close> is the
  width \<open>0\<close>.
\<close>

definition format_d :: "nat \<Rightarrow> int \<Rightarrow> pystr" where
  "format_d width n =
     (let sign = (if n < 0 then ascii ''-'' else []);
          ds = digits (nat \<bar>n\<bar>)
      in sign @ replicate (width - (length sign + length ds)) 48 @ ds)"

definition seconds_to_srt_time :: "real \<Rightarrow> pystr" where
  "seconds_to_srt_time seconds =
     (let hours = py_int (py_floordiv seconds 3600);
          minutes = py_int (py_floordiv (py_mod seconds 3600) 60);
          secs = py_int (py_mod seconds 60);
          milliseconds = py_int (float_mul (py_mod seconds 1) 1000)
      in format_d 2 hours @ ascii '':'' @ format_d 2 minutes @ ascii '':'' @
         format_d 2 secs @ ascii '','' @ format_d 3 milliseconds)"

text \<open>
  \<open>for index, segment in enumerate(transcript.segments, start=1)\<close>, appending four
  lines to \<open>srt_lines\<close> (the accumulator) for each segment.
\<close>

fun srt_loop :: "int \<Rightarrow> TranscriptSegment list \<Rightarrow> pystr list \<Rightarrow> pystr list" where
  "srt_loop index [] srt_lines = srt_lines"
| "srt_loop index (segment # rest) srt_lines =
     (let start_time = seconds_to_srt_time (seg_start segment);
          end_time = seconds_to_srt_time (seg_end segment)
      in srt_loop (index + 1) rest
           (srt_lines @
            [format_d 0 index,
             start_time @ ascii '' --> '' @ end_time,
             seg_text segment,
             []]))"

text \<open>The code point \<open>10\<close> is the newline of \<open>"\n".join(srt_lines)\<close>.\<close>

definition format_srt :: "Transcript \<Rightarrow> pystr" where
  "format_srt transcript = join [10] (srt_loop 1 (segments transcript) [])"


section \<open>Notions used to state the properties\<close>

text \<open>
  The conditions of the splitter's loop, named: \<open>has_words\<close> is the truth value of
  \<open>segment.words\<close> (neither \<open>None\<close> nor the empty list), \<open>nonblank\<close> is the filter
  \<open>w.word.strip()\<close>, and \<open>words_of\<close> reads the word list of a segment. The two
  \<open>ValueError\<close>s of the splitter carry the names the specification gives them.
\<close>

definition has_words :: "TranscriptSegment \<Rightarrow> bool" where
  "has_words s \<longleftrightarrow> (case seg_words s of None \<Rightarrow> False | Some ws \<Rightarrow> ws \<noteq> [])"

definition words_of :: "TranscriptSegment \<Rightarrow> WordTimestamp list" where
  "words_of s = (case seg_words s of None \<Rightarrow> [] | Some ws \<Rightarrow> ws)"

definition nonblank :: "WordTimestamp \<Rightarrow> bool" where
  "nonblank w \<longleftrightarrow> strip (w_word w) \<noteq> []"

definition InvalidArgument :: error where
  "InvalidArgument = ValueError ''max_words must be greater than 0''"

definition MissingWordTimestamps :: error where
  "MissingWordTimestamps = ValueError ''Word-level timestamps are required to split by max words.''"

text \<open>A real number that is a binary64 value: rounding leaves it as it is.\<close>

definition is_binary64 :: "real \<Rightarrow> bool" where
  "is_binary64 x \<longleftrightarrow> binary64_round x = x"

text \<open>A string that is not empty and has no whitespace at either end.\<close>

definition clean :: "pystr \<Rightarrow> bool" where
  "clean s \<longleftrightarrow> s \<noteq> [] \<and> \<not> isspace (hd s) \<and> \<not> isspace (last s)"


section \<open>The splitter as the specification words it\<close>

text \<open>
  Consecutive groups of exactly \<open>m\<close> elements, the last one possibly shorter; the
  output segment of one chunk (start of its first word, end of its last word, the
  trimmed texts joined by one space, the chunk as its words); and the output of the
  whole call, segment by segment in input order.
\<close>

function spec_chunks :: "nat \<Rightarrow> 'a list \<Rightarrow> 'a list list" where
  "spec_chunks m xs =
     (if m = 0 \<or> xs = [] then [] else take m xs # spec_chunks m (drop m xs))"
  by pat_completeness auto
termination
  by (relation "measure (\<lambda>(m, xs). length xs)") auto

declare spec_chunks.simps [simp del]

definition spec_segment :: "WordTimestamp list \<Rightarrow> TranscriptSegment" where
  "spec_segment chunk =
     \<lparr>seg_start = w_start (hd chunk),
      seg_end = w_end (last chunk),
      seg_text = join (ascii '' '') (map (\<lambda>w. strip (w_word w)) chunk),
      seg_words = Some chunk\<rparr>"

definition spec_split_one :: "nat \<Rightarrow> TranscriptSegment \<Rightarrow> TranscriptSegment list" where
  "spec_split_one m s = map spec_segment (spec_chunks m (filter nonblank (words_of s)))"

definition spec_split :: "TranscriptSegment list \<Rightarrow> nat \<Rightarrow> TranscriptSegment list" where
  "spec_split segs m = concat (map (spec_split_one m) segs)"


section \<open>The formatter as the specification words it\<close>

text \<open>
  \<open>s mod d\<close> on the reals for a positive \<open>d\<close>, and a natural number written in decimal
  and padded with zeros on the left up to a width.
\<close>

definition real_mod :: "real \<Rightarrow> real \<Rightarrow> real" where
  "real_mod s d = s - d * of_int \<lfloor>s / d\<rfloor>"

definition zero_pad :: "nat \<Rightarrow> nat \<Rightarrow> pystr" where
  "zero_pad w n = replicate (w - length (digits n)) 48 @ digits n"

text \<open>
  The milliseconds: the floor of \<open>(s mod 1) * 1000\<close>, or one more when that product lies
  within half a unit in the last place of binary64 below the next whole number.
\<close>

definition spec_millis :: "real \<Rightarrow> int" where
  "spec_millis s =
     (let y = real_mod s 1 * 1000; k = \<lfloor>y\<rfloor> in
      if 0 < y \<and> of_int k + 1 - y \<le> 2 powi binary64_exponent y / 2 then k + 1 else k)"

text \<open>
  The repeating block of the SRT output,
  \<open><index>\n<start> --> <end>\n<text>\n\n\<close>, and the blocks of a list of segments
  numbered from \<open>i\<close> on.
\<close>

definition spec_srt_block :: "nat \<Rightarrow> TranscriptSegment \<Rightarrow> pystr" where
  "spec_srt_block i seg =
     digits i @ [10] @
     seconds_to_srt_time (seg_start seg) @ ascii '' --> '' @ seconds_to_srt_time (seg_end seg) @ [10] @
     seg_text seg @ [10] @
     [10]"

fun spec_srt_blocks :: "nat \<Rightarrow> TranscriptSegment list \<Rightarrow> pystr" where
  "spec_srt_blocks i [] = []"
| "spec_srt_blocks i (seg # rest) = spec_srt_block i seg @ spec_srt_blocks (Suc i) rest"

text \<open>The lines that the loop of \<open>format_srt\<close> appends for segments numbered from \<open>i\<close> on.\<close>

fun srt_lines_from :: "nat \<Rightarrow> TranscriptSegment list \<Rightarrow> pystr list" where
  "srt_lines_from i [] = []"
| "srt_lines_from i (seg # rest) =
     [digits i,
      seconds_to_srt_time (seg_start seg) @ ascii '' --> '' @ seconds_to_srt_time (seg_end seg),
      seg_text seg,
      []] @ srt_lines_from (Suc i) rest"


section \<open>Example data\<close>

definition ex_a :: WordTimestamp where
  "ex_a = \<lparr>w_start = 0, w_end = 1/2, w_word = ascii ''a''\<rparr>"
definition ex_b :: WordTimestamp where
  "ex_b = \<lparr>w_start = 1/2, w_end = 1, w_word = ascii '' b''\<rparr>"
definition ex_blank :: WordTimestamp where
  "ex_blank = \<lparr>w_start = 1, w_end = 1, w_word = ascii ''  ''\<rparr>"
definition ex_c :: WordTimestamp where
  "ex_c = \<lparr>w_start = 1, w_end = 3/2, w_word = ascii '' c ''\<rparr>"
definition ex_segment :: TranscriptSegment where
  "ex_segment = \<lparr>seg_start = 0, seg_end = 3/2, seg_text = ascii ''a b c'',
                  seg_words = Some [ex_a, ex_b, ex_blank, ex_c]\<rparr>"

definition ex_no_words :: TranscriptSegment where
  "ex_no_words = \<lparr>seg_start = 0, seg_end = 1, seg_text = ascii ''hi'', seg_words = None\<rparr>"
definition ex_empty_words :: TranscriptSegment where
  "ex_empty_words = \<lparr>seg_start = 0, seg_end = 1, seg_text = ascii ''hi'', seg_words = Some []\<rparr>"
definition ex_blank_segment :: TranscriptSegment where
  "ex_blank_segment =
     \<lparr>seg_start = 1, seg_end = 1, seg_text = ascii ''  '', seg_words = Some [ex_blank, ex_blank]\<rparr>"
definition ex_out1 :: TranscriptSegment where
  "ex_out1 = \<lparr>seg_start = 0, seg_end = 1, seg_text = ascii ''a b'', seg_words = Some [ex_a, ex_b]\<rparr>"
definition ex_out2 :: TranscriptSegment where
  "ex_out2 = \<lparr>seg_start = 1, seg_end = 3/2, seg_text = ascii ''c'', seg_words = Some [ex_c]\<rparr>"


definition ex_transcript :: Transcript where
  "ex_transcript = \<lparr>segments = [ex_no_words, ex_segment], language = None\<rparr>"

definition ex_short_transcript :: Transcript where
  "ex_short_transcript = \<lparr>segments = [ex_no_words], language = None\<rparr>"


section \<open>Trimming and joining\<close>

lemma last_dropWhile: "dropWhile P xs \<noteq> [] \<Longrightarrow> last (dropWhile P xs) = last xs"
  by (induction xs) (auto split: if_splits)

lemma clean_strip: "strip s \<noteq> [] \<Longrightarrow> clean (strip s)"
proof -
  assume ne: "strip s \<noteq> []"
  define t where "t = dropWhile isspace s"
  define u where "u = dropWhile isspace (rev t)"
  have su: "strip s = rev u" by (simp add: strip_def t_def u_def)
  from ne su have une: "u \<noteq> []" by simp
  then have tne: "t \<noteq> []" by (auto simp: u_def)
  have "last (rev u) = hd u" using une by (simp add: last_rev)
  moreover have "\<not> isspace (hd u)" using une unfolding u_def by (rule hd_dropWhile)
  moreover have "hd (rev u) = last u" using une by (simp add: hd_rev)
  moreover have "last u = last (rev t)" using une unfolding u_def by (rule last_dropWhile)
  moreover have "last (rev t) = hd t" using tne by (simp add: last_rev)
  moreover have "\<not> isspace (hd t)" using tne unfolding t_def by (rule hd_dropWhile)
  ultimately show ?thesis using ne su by (simp add: clean_def)
qed

lemma strip_clean_id: "clean s \<Longrightarrow> strip s = s"
proof -
  assume c: "clean s"
  then have 1: "dropWhile isspace s = s" by (cases s) (auto simp: clean_def)
  from c have "dropWhile isspace (rev s) = rev s"
    by (cases "rev s") (auto simp: clean_def last_rev hd_rev)
  with 1 show ?thesis by (simp add: strip_def)
qed

lemma join_Cons: "join sep (x # xs) = (if xs = [] then x else x @ sep @ join sep xs)"
  by (cases xs) auto

lemma join_clean: "xs \<noteq> [] \<Longrightarrow> \<forall>x\<in>set xs. clean x \<Longrightarrow> clean (join sep xs)"
proof (induction xs)
  case Nil then show ?case by simp
next
  case (Cons x xs)
  show ?case
  proof (cases "xs = []")
    case True with Cons.prems show ?thesis by simp
  next
    case False
    with Cons have "clean (join sep xs)" by simp
    moreover have "clean x" using Cons.prems by simp
    ultimately show ?thesis using False by (auto simp: join_Cons clean_def)
  qed
qed


section \<open>The loops of the splitter\<close>

lemma chunk_segment_spec:
  assumes "chunk \<noteq> []" and "\<forall>w\<in>set chunk. nonblank w"
  shows "chunk_segment chunk = Inr (spec_segment chunk)"
proof -
  let ?parts = "map (\<lambda>w. strip (w_word w)) chunk"
  have "\<forall>x\<in>set ?parts. clean x"
    using assms(2) by (auto simp: nonblank_def intro: clean_strip)
  moreover have "?parts \<noteq> []" using assms(1) by simp
  ultimately have "clean (join (ascii '' '') ?parts)" by (rule join_clean[rotated])
  then have "strip (join (ascii '' '') ?parts) = join (ascii '' '') ?parts"
    by (rule strip_clean_id)
  then show ?thesis using assms(1)
    by (cases chunk) (simp_all add: chunk_segment_def spec_segment_def)
qed

lemma slice_take_drop: "slice xs i (i + m) = take m (drop i xs)"
  by (simp add: slice_def drop_take)

lemma chunk_loop_spec:
  assumes "0 < m" and "\<forall>w\<in>set words. nonblank w" and "\<forall>i\<in>set idxs. i < length words"
  shows "chunk_loop words m idxs acc
         = Inr (acc @ map (\<lambda>i. spec_segment (slice words i (i + m))) idxs)"
  using assms(3)
proof (induction idxs arbitrary: acc)
  case Nil
  then show ?case by simp
next
  case (Cons i idxs)
  let ?c = "slice words i (i + m)"
  from Cons.prems have "i < length words" by simp
  with assms(1) have "?c \<noteq> []" by (simp add: slice_take_drop)
  moreover have "\<forall>w\<in>set ?c. nonblank w"
    using assms(2) by (auto simp: slice_take_drop dest: in_set_takeD in_set_dropD)
  ultimately have "chunk_segment ?c = Inr (spec_segment ?c)" by (rule chunk_segment_spec)
  moreover have "\<forall>i\<in>set idxs. i < length words" using Cons.prems by simp
  ultimately show ?case using Cons.IH by simp
qed

lemma range_step_bound: "j \<in> set (range_step i n k) \<Longrightarrow> j < n"
proof (induction i n k rule: range_step.induct)
  case (1 i n k)
  then show ?case
    by (subst (asm) (2) range_step.simps) (auto split: if_splits)
qed

lemma range_step_chunks:
  "0 < m \<Longrightarrow> map (\<lambda>i. slice ws i (i + m)) (range_step i (length ws) m) = spec_chunks m (drop i ws)"
proof (induction i "length ws" m rule: range_step.induct)
  case (1 i k)
  show ?case
  proof (cases "i < length ws")
    case True
    with 1 have IH: "map (\<lambda>i. slice ws i (i + k)) (range_step (i + k) (length ws) k)
                      = spec_chunks k (drop (i + k) ws)" by simp
    have "range_step i (length ws) k = i # range_step (i + k) (length ws) k"
      using True 1(2) by (subst range_step.simps) simp
    moreover have "spec_chunks k (drop i ws)
                   = take k (drop i ws) # spec_chunks k (drop (i + k) ws)"
      using True 1(2) by (subst spec_chunks.simps) (simp add: add.commute)
    ultimately show ?thesis using IH by (simp add: slice_take_drop)
  next
    case False
    then have "range_step i (length ws) k = []" by (subst range_step.simps) simp
    moreover have "spec_chunks k (drop i ws) = []"
      using False by (subst spec_chunks.simps) simp
    ultimately show ?thesis by simp
  qed
qed

lemma words_loop_spec:
  assumes "0 < m" and "\<forall>w\<in>set words. nonblank w"
  shows "chunk_loop words m (range_step 0 (length words) m) acc
         = Inr (acc @ map spec_segment (spec_chunks m words))"
proof -
  have "\<forall>i\<in>set (range_step 0 (length words) m). i < length words"
    by (auto dest: range_step_bound)
  with assms have "chunk_loop words m (range_step 0 (length words) m) acc
         = Inr (acc @ map (\<lambda>i. spec_segment (slice words i (i + m)))
                        (range_step 0 (length words) m))"
    by (rule chunk_loop_spec)
  also have "map (\<lambda>i. spec_segment (slice words i (i + m))) (range_step 0 (length words) m)
             = map spec_segment (map (\<lambda>i. slice words i (i + m)) (range_step 0 (length words) m))"
    by simp
  also have "\<dots> = map spec_segment (spec_chunks m words)"
    using assms(1) by (simp only: range_step_chunks drop_0)
  finally show ?thesis .
qed

lemma spec_chunks_Nil: "spec_chunks m [] = []"
  by (subst spec_chunks.simps) simp

lemma segment_loop_step:
  assumes "0 < m" and "has_words s"
  shows "segment_loop (s # rest) m acc = segment_loop rest m (acc @ spec_split_one m s)"
proof -
  from assms(2) obtain v vs where sw: "seg_words s = Some (v # vs)"
    by (cases "seg_words s") (auto simp: has_words_def neq_Nil_conv)
  let ?words = "filter (\<lambda>w. strip (w_word w) \<noteq> []) (v # vs)"
  have fw: "?words = filter nonblank (words_of s)"
    using sw by (simp add: words_of_def nonblank_def[abs_def])
  show ?thesis
  proof (cases "?words = []")
    case True
    then have "spec_split_one m s = []"
      using fw by (simp add: spec_split_one_def spec_chunks_Nil)
    with True sw show ?thesis by simp
  next
    case False
    have "\<forall>w\<in>set ?words. nonblank w" by (simp add: nonblank_def)
    with assms(1) have "chunk_loop ?words m (range_step 0 (length ?words) m) acc
         = Inr (acc @ map spec_segment (spec_chunks m ?words))"
      by (rule words_loop_spec)
    with False sw fw show ?thesis by (simp add: spec_split_one_def Let_def)
  qed
qed

lemma segment_loop_spec:
  assumes "0 < m" and "\<forall>s\<in>set segs. has_words s"
  shows "segment_loop segs m acc = Inr (acc @ spec_split segs m)"
  using assms(2)
proof (induction segs arbitrary: acc)
  case Nil
  then show ?case by (simp add: spec_split_def)
next
  case (Cons s segs)
  from Cons.prems have "has_words s" by simp
  with assms(1) have step:
    "segment_loop (s # segs) m acc = segment_loop segs m (acc @ spec_split_one m s)"
    by (rule segment_loop_step)
  from Cons.prems have "\<forall>s\<in>set segs. has_words s" by simp
  then have "segment_loop segs m (acc @ spec_split_one m s)
             = Inr ((acc @ spec_split_one m s) @ spec_split segs m)"
    by (rule Cons.IH)
  with step show ?case by (simp add: spec_split_def)
qed

lemma segment_loop_missing:
  assumes "0 < m" and "\<exists>s\<in>set segs. \<not> has_words s"
  shows "segment_loop segs m acc = Inl MissingWordTimestamps"
  using assms(2)
proof (induction segs arbitrary: acc)
  case Nil
  then show ?case by simp
next
  case (Cons s segs)
  show ?case
  proof (cases "has_words s")
    case True
    with assms(1) have step:
      "segment_loop (s # segs) m acc = segment_loop segs m (acc @ spec_split_one m s)"
      by (rule segment_loop_step)
    from True Cons.prems have "\<exists>s\<in>set segs. \<not> has_words s" by auto
    then have "segment_loop segs m (acc @ spec_split_one m s) = Inl MissingWordTimestamps"
      by (rule Cons.IH)
    with step show ?thesis by simp
  next
    case False
    then show ?thesis
      by (auto simp: has_words_def MissingWordTimestamps_def split: option.splits list.splits)
  qed
qed

lemma split_success:
  assumes "0 < max_words" and "\<forall>s\<in>set segs. has_words s"
  shows "split_segments_by_max_words segs max_words = Inr (spec_split segs (nat max_words))"
proof -
  from assms(1) have "0 < nat max_words" by simp
  then have "segment_loop segs (nat max_words) [] = Inr ([] @ spec_split segs (nat max_words))"
    using assms(2) by (rule segment_loop_spec)
  with assms(1) show ?thesis by (simp add: split_segments_by_max_words_def)
qed

lemma split_missing:
  assumes "0 < max_words" and "\<exists>s\<in>set segs. \<not> has_words s"
  shows "split_segments_by_max_words segs max_words = Inl MissingWordTimestamps"
proof -
  from assms(1) have "0 < nat max_words" by simp
  then have "segment_loop segs (nat max_words) [] = Inl MissingWordTimestamps"
    using assms(2) by (rule segment_loop_missing)
  with assms(1) show ?thesis by (simp add: split_segments_by_max_words_def)
qed

lemma split_Inr_D:
  assumes "split_segments_by_max_words segs max_words = Inr out"
  shows "0 < max_words" and "\<forall>s\<in>set segs. has_words s"
    and "out = spec_split segs (nat max_words)"
proof -
  show pos: "0 < max_words"
    using assms by (cases "0 < max_words") (simp_all add: split_segments_by_max_words_def)
  show all: "\<forall>s\<in>set segs. has_words s"
  proof (rule ccontr)
    assume "\<not> (\<forall>s\<in>set segs. has_words s)"
    then have "\<exists>s\<in>set segs. \<not> has_words s" by simp
    with pos have "split_segments_by_max_words segs max_words = Inl MissingWordTimestamps"
      by (rule split_missing)
    with assms show False by simp
  qed
  from pos all have "split_segments_by_max_words segs max_words
                     = Inr (spec_split segs (nat max_words))"
    by (rule split_success)
  with assms show "out = spec_split segs (nat max_words)" by simp
qed

lemma split_single:
  assumes "0 < max_words" and "has_words s"
  shows "split_segments_by_max_words [s] max_words = Inr (spec_split_one (nat max_words) s)"
proof -
  from assms(2) have "\<forall>x\<in>set [s]. has_words x" by simp
  with assms(1) have "split_segments_by_max_words [s] max_words
                      = Inr (spec_split [s] (nat max_words))"
    by (rule split_success)
  then show ?thesis by (simp add: spec_split_def)
qed


section \<open>Chunks\<close>

lemma spec_chunks_Cons:
  "0 < m \<Longrightarrow> xs \<noteq> [] \<Longrightarrow> spec_chunks m xs = take m xs # spec_chunks m (drop m xs)"
  by (subst spec_chunks.simps) simp

lemma spec_chunks_concat: "0 < m \<Longrightarrow> concat (spec_chunks m xs) = xs"
proof (induction m xs rule: spec_chunks.induct)
  case (1 m xs)
  show ?case
  proof (cases "xs = []")
    case True
    then show ?thesis by (simp add: spec_chunks_Nil)
  next
    case False
    with 1 show ?thesis by (simp add: spec_chunks_Cons)
  qed
qed

lemma spec_chunks_elem:
  "c \<in> set (spec_chunks m xs) \<Longrightarrow> c \<noteq> [] \<and> length c \<le> m"
proof (induction m xs rule: spec_chunks.induct)
  case (1 m xs)
  show ?case
  proof (cases "m = 0 \<or> xs = []")
    case True
    then have "spec_chunks m xs = []" by (subst spec_chunks.simps) simp
    with 1(2) show ?thesis by simp
  next
    case False
    then have "spec_chunks m xs = take m xs # spec_chunks m (drop m xs)"
      by (simp add: spec_chunks_Cons)
    with 1(2) have "c = take m xs \<or> c \<in> set (spec_chunks m (drop m xs))" by simp
    then show ?thesis
    proof
      assume "c = take m xs"
      with False show ?thesis by simp
    next
      assume "c \<in> set (spec_chunks m (drop m xs))"
      with False 1(1) show ?thesis by simp
    qed
  qed
qed

lemma spec_chunks_full:
  "Suc j < length (spec_chunks m xs) \<Longrightarrow> length (spec_chunks m xs ! j) = m"
proof (induction m xs arbitrary: j rule: spec_chunks.induct)
  case (1 m xs)
  show ?case
  proof (cases "m = 0 \<or> xs = []")
    case True
    then have "spec_chunks m xs = []" by (subst spec_chunks.simps) simp
    with 1(2) show ?thesis by simp
  next
    case False
    then have eq: "spec_chunks m xs = take m xs # spec_chunks m (drop m xs)"
      by (simp add: spec_chunks_Cons)
    show ?thesis
    proof (cases j)
      case 0
      with 1(2) eq have "spec_chunks m (drop m xs) \<noteq> []" by auto
      then have "drop m xs \<noteq> []" by (auto simp: spec_chunks_Nil)
      then have "m < length xs" by simp
      with 0 eq show ?thesis by simp
    next
      case (Suc k)
      with 1(2) eq have "Suc k < length (spec_chunks m (drop m xs))" by simp
      with False 1(1) have "length (spec_chunks m (drop m xs) ! k) = m" by simp
      with Suc eq show ?thesis by simp
    qed
  qed
qed

lemma spec_split_one_words:
  "o' \<in> set (spec_split_one m s) \<Longrightarrow>
     \<exists>ws. seg_words o' = Some ws \<and> ws \<noteq> [] \<and> length ws \<le> m"
  by (auto simp: spec_split_one_def spec_segment_def dest: spec_chunks_elem)

lemma spec_split_one_full:
  assumes "Suc j < length (spec_split_one m s)"
  shows "\<exists>ws. seg_words (spec_split_one m s ! j) = Some ws \<and> length ws = m"
proof -
  let ?cs = "spec_chunks m (filter nonblank (words_of s))"
  from assms have j: "Suc j < length ?cs" by (simp add: spec_split_one_def)
  then have "length (?cs ! j) = m" by (rule spec_chunks_full)
  moreover from j have "spec_split_one m s ! j = spec_segment (?cs ! j)"
    by (simp add: spec_split_one_def)
  ultimately show ?thesis by (simp add: spec_segment_def)
qed

lemma spec_split_one_concat:
  assumes "0 < m"
  shows "concat (map words_of (spec_split_one m s)) = filter nonblank (words_of s)"
proof -
  have "map words_of (spec_split_one m s) = spec_chunks m (filter nonblank (words_of s))"
    by (simp add: spec_split_one_def spec_segment_def words_of_def comp_def)
  with assms show ?thesis by (simp add: spec_chunks_concat)
qed

lemma segment_loop_skip_blank:
  assumes "seg_words s = Some ws" and "ws \<noteq> []" and "\<forall>w\<in>set ws. strip (w_word w) = []"
  shows "segment_loop (pre @ s # post) m acc = segment_loop (pre @ post) m acc"
proof (induction pre arbitrary: acc)
  case Nil
  from assms(3) have "filter (\<lambda>w. strip (w_word w) \<noteq> []) ws = []" by (simp add: filter_empty_conv)
  with assms(1,2) show ?case by (cases ws) simp_all
next
  case (Cons x pre)
  then show ?case by (simp split: option.splits list.splits sum.splits add: Let_def)
qed

lemmas ex_defs = ex_a_def ex_b_def ex_c_def ex_blank_def ex_segment_def ex_no_words_def
  ex_empty_words_def ex_blank_segment_def ex_out1_def ex_out2_def

lemmas eval_defs = has_words_def words_of_def nonblank_def ascii_def strip_def isspace_def
  spec_split_def spec_split_one_def spec_segment_def spec_chunks.simps


section \<open>Time arithmetic and number formatting\<close>

lemma real_mod_range:
  assumes "0 < d"
  shows "0 \<le> real_mod s d" and "real_mod s d < d"
proof -
  have "d * of_int \<lfloor>s / d\<rfloor> \<le> d * (s / d)"
    using assms by (intro mult_left_mono) simp_all
  also have "d * (s / d) = s" using assms by simp
  finally show "0 \<le> real_mod s d" by (simp add: real_mod_def)
  have "s / d < of_int \<lfloor>s / d\<rfloor> + 1" by linarith
  with assms have "d * (s / d) < d * (of_int \<lfloor>s / d\<rfloor> + 1)"
    by (intro mult_strict_left_mono)
  moreover have "d * (s / d) = s" using assms by simp
  ultimately show "real_mod s d < d" by (simp add: real_mod_def algebra_simps)
qed

lemma py_int_floor: "0 \<le> x \<Longrightarrow> py_int x = \<lfloor>x\<rfloor>"
  by (simp add: py_int_def)

lemma format_d_zero_pad: "0 \<le> n \<Longrightarrow> format_d w n = zero_pad w (nat n)"
  by (simp add: format_d_def zero_pad_def Let_def)

lemma format_d_index: "format_d 0 (int i) = digits i"
  by (simp add: format_d_def Let_def)

lemma digits_small: "n < 10 \<Longrightarrow> digits n = [48 + n]"
  by (subst digits.simps) simp

lemma digits_large: "10 \<le> n \<Longrightarrow> digits n = digits (n div 10) @ [48 + n mod 10]"
  by (subst digits.simps) simp

lemma replicate_2: "replicate 2 x = [x, x]"
  by (simp add: numeral_2_eq_2)

lemma replicate_3: "replicate 3 x = [x, x, x]"
  by (simp add: numeral_3_eq_3)


section \<open>Binary64 rounding\<close>

lemma round_half_even_le: "x < of_int N + 1/2 \<Longrightarrow> round_half_even x \<le> N"
proof -
  assume a: "x < of_int N + 1/2"
  have fl: "of_int \<lfloor>x\<rfloor> \<le> x" by simp
  show ?thesis
  proof (cases "x - of_int \<lfloor>x\<rfloor> < 1/2")
    case True
    then have "round_half_even x = \<lfloor>x\<rfloor>" by (simp add: round_half_even_def)
    moreover from a fl have "real_of_int \<lfloor>x\<rfloor> < of_int N + 1" by linarith
    then have "\<lfloor>x\<rfloor> < N + 1" by linarith
    ultimately show ?thesis by simp
  next
    case False
    then have "of_int \<lfloor>x\<rfloor> + 1/2 \<le> x" by simp
    with a have "real_of_int \<lfloor>x\<rfloor> < of_int N" by linarith
    then have "\<lfloor>x\<rfloor> + 1 \<le> N" by linarith
    moreover have "round_half_even x \<le> \<lfloor>x\<rfloor> + 1" by (simp add: round_half_even_def Let_def)
    ultimately show ?thesis by linarith
  qed
qed

lemma round_half_even_nonneg: "0 \<le> x \<Longrightarrow> 0 \<le> round_half_even x"
proof -
  assume "0 \<le> x"
  then have "0 \<le> \<lfloor>x\<rfloor>" by simp
  moreover have "\<lfloor>x\<rfloor> \<le> round_half_even x" by (simp add: round_half_even_def Let_def)
  ultimately show ?thesis by linarith
qed

lemma round_half_even_of_int: "round_half_even (of_int k) = k"
  by (simp add: round_half_even_def)

lemma binary64_round_nonneg: "0 \<le> y \<Longrightarrow> 0 \<le> binary64_round y"
  by (simp add: binary64_round_def round_half_even_nonneg)

lemma floor_log2_eq:
  assumes "2 powi e \<le> y" and "y < 2 powi (e + 1)"
  shows "\<lfloor>log 2 y\<rfloor> = e"
proof -
  have pos: "0 < y" using assms(1) by (smt (verit) zero_less_power_int)
  have "2 powr real_of_int e \<le> y" using assms(1) by (simp add: powr_real_of_int')
  moreover have "y < 2 powr (real_of_int e + 1)"
    using assms(2) powr_real_of_int'[of 2 "e + 1"] by simp
  ultimately show ?thesis using pos by (simp add: floor_log_eq_powr_iff)
qed


lemma binary64_exponent_eq:
  assumes "2 powi e \<le> \<bar>y\<bar>" and "\<bar>y\<bar> < 2 powi (e + 1)"
  shows "binary64_exponent y = max e (- 1022) - 52"
  using floor_log2_eq[OF assms] by (simp add: binary64_exponent_def)

lemma binary64_round_eval:
  assumes "2 powi e \<le> \<bar>y\<bar>" and "\<bar>y\<bar> < 2 powi (e + 1)" and "- 1022 \<le> e"
  shows "binary64_round y = of_int (round_half_even (y / 2 powi (e - 52))) * 2 powi (e - 52)"
proof -
  have "binary64_exponent y = e - 52"
    using binary64_exponent_eq[OF assms(1,2)] assms(3) by simp
  moreover have "y \<noteq> 0" using assms(1) by (smt (verit) zero_less_power_int)
  ultimately show ?thesis by (simp add: binary64_round_def)
qed

lemma binary64_round_le:
  assumes "0 < y" and "y < r + 2 powi binary64_exponent y / 2"
    and "r = of_int N * 2 powi binary64_exponent y"
  shows "binary64_round y \<le> r"
proof -
  let ?q = "(2::real) powi binary64_exponent y"
  have q: "0 < ?q" by simp
  from assms(2,3) have "y < (of_int N + 1/2) * ?q" by (simp add: algebra_simps)
  with q have "y / ?q < of_int N + 1/2" by (simp add: pos_divide_less_eq)
  then have "round_half_even (y / ?q) \<le> N" by (rule round_half_even_le)
  then have "real_of_int (round_half_even (y / ?q)) \<le> of_int N" by simp
  with q have "of_int (round_half_even (y / ?q)) * ?q \<le> of_int N * ?q"
    by (intro mult_right_mono) simp_all
  with assms(1,3) show ?thesis by (simp add: binary64_round_def)
qed

lemma binary64_round_below_512:
  assumes "0 < y" and "y < 512"
  shows "binary64_round y \<le> 512"
proof -
  let ?e = "binary64_exponent y"
  have "log 2 y < 9"
  proof -
    have "y < 2 powr 9" using assms(2) by simp
    with assms(1) show ?thesis by (simp add: log_less_iff)
  qed
  then have "\<lfloor>log 2 y\<rfloor> < 9" by (simp add: floor_less_iff)
  with assms(1) have e: "?e \<le> - 44" by (simp add: binary64_exponent_def)
  have "(2::real) powi 9 = 2 powi (9 - ?e) * 2 powi ?e"
    by (simp add: power_int_add[symmetric])
  moreover have "(2::real) powi (9 - ?e) = of_int (2 ^ nat (9 - ?e))"
    using e by (simp add: power_int_def)
  ultimately have r: "(512::real) = of_int (2 ^ nat (9 - ?e)) * 2 powi ?e" by simp
  have "(0::real) < 2 powi ?e / 2" by simp
  with assms(2) have "y < 512 + 2 powi ?e / 2" by linarith
  with assms(1) show ?thesis using r by (rule binary64_round_le)
qed

lemma binary64_round_below_1000:
  assumes "512 \<le> y" and "y \<le> 1000 - 1000 / 2 ^ 53"
  shows "binary64_round y \<le> 1000 - 1 / 2 ^ 43"
proof -
  have y: "0 < y" using assms(1) by simp
  have "2 powi 9 \<le> \<bar>y\<bar>" using assms(1) by simp
  moreover have "\<bar>y\<bar> < 2 powi (9 + 1)" using assms by simp
  ultimately have e: "binary64_exponent y = - 43"
    using binary64_exponent_eq[of 9 y] by simp
  have q: "(2::real) powi (- 43) = 1 / 2 ^ 43" by (simp add: inverse_eq_divide)
  have r: "(1000 - 1 / 2 ^ 43 :: real) = of_int (1000 * 2 ^ 43 - 1) * 2 powi binary64_exponent y"
    unfolding e q by simp
  have "y < (1000 - 1 / 2 ^ 43) + 2 powi binary64_exponent y / 2"
    unfolding e q using assms(2) by simp
  with y show ?thesis using r by (rule binary64_round_le)
qed

lemma binary64_scaled_int:
  assumes "is_binary64 s" and "1/2 \<le> s"
  shows "\<exists>M::int. s * 2 ^ 53 = of_int M"
proof -
  let ?e = "binary64_exponent s"
  have pos: "0 < s" using assms(2) by simp
  have "- 1 \<le> log 2 s"
  proof -
    have "2 powr (- 1) \<le> s" using assms(2) by (simp add: powr_neg_one)
    with pos show ?thesis by (simp add: le_log_iff)
  qed
  then have "- 1 \<le> \<lfloor>log 2 s\<rfloor>" by (simp add: le_floor_iff)
  with pos have e: "- 53 \<le> ?e" by (simp add: binary64_exponent_def)
  let ?K = "round_half_even (s / 2 powi ?e)"
  from assms(1) pos have s: "s = of_int ?K * 2 powi ?e"
    by (simp add: is_binary64_def binary64_round_def)
  have "(2::real) powi ?e * 2 ^ 53 = 2 powi (?e + 53)"
    by (simp add: power_int_add)
  also have "\<dots> = of_int (2 ^ nat (?e + 53))" using e by (simp add: power_int_def)
  finally have "of_int ?K * (2 powi ?e * 2 ^ 53) = real_of_int (?K * 2 ^ nat (?e + 53))"
    by simp
  with s have "s * 2 ^ 53 = real_of_int (?K * 2 ^ nat (?e + 53))"
    by (metis mult.assoc)
  then show ?thesis by blast
qed

lemma binary64_frac_bound:
  assumes "is_binary64 s" and "0 \<le> s"
  shows "real_mod s 1 \<le> 1 - 1 / 2 ^ 53"
proof (cases "s < 1/2")
  case True
  with assms(2) have "\<lfloor>s\<rfloor> = 0" by (simp add: floor_eq_iff)
  then have "real_mod s 1 = s" by (simp add: real_mod_def)
  with True show ?thesis by simp
next
  case False
  then have "1/2 \<le> s" by simp
  with assms(1) obtain M :: int where M: "s * 2 ^ 53 = of_int M"
    using binary64_scaled_int by blast
  let ?x = "real_mod s 1"
  define P :: int where "P = 2 ^ 53"
  have P: "(2::real) ^ 53 = of_int P" by (simp add: P_def)
  have x: "?x = s - of_int \<lfloor>s\<rfloor>" by (simp add: real_mod_def)
  have M': "s * of_int P = of_int M" using M by (simp only: P)
  have "?x * of_int P = s * of_int P - of_int \<lfloor>s\<rfloor> * of_int P"
    unfolding x by (rule left_diff_distrib)
  also have "\<dots> = of_int (M - \<lfloor>s\<rfloor> * P)" unfolding M' by simp
  finally have xM: "?x * of_int P = of_int (M - \<lfloor>s\<rfloor> * P)" .
  have "?x < 1" using x by linarith
  moreover have "0 < real_of_int P" by (simp add: P_def)
  ultimately have "?x * of_int P < of_int P" by simp
  with xM have "real_of_int (M - \<lfloor>s\<rfloor> * P) < of_int P" by simp
  then have "M - \<lfloor>s\<rfloor> * P < P" by (simp only: of_int_less_iff)
  then have "M - \<lfloor>s\<rfloor> * P \<le> P - 1" by simp
  then have "real_of_int (M - \<lfloor>s\<rfloor> * P) \<le> real_of_int (P - 1)" by (simp only: of_int_le_iff)
  with xM have "?x * of_int P \<le> of_int P - 1" by simp
  then have "?x * 2 ^ 53 \<le> 2 ^ 53 - 1" by (simp only: P)
  then show ?thesis by (simp add: field_simps)
qed

lemma float_mul_millis_bound:
  assumes "is_binary64 s" and "0 \<le> s"
  shows "0 \<le> float_mul (real_mod s 1) 1000" and "float_mul (real_mod s 1) 1000 < 1000"
proof -
  let ?y = "real_mod s 1 * 1000"
  have x0: "0 \<le> real_mod s 1" using real_mod_range(1)[of 1 s] by simp
  then have y0: "0 \<le> ?y" by simp
  then show "0 \<le> float_mul (real_mod s 1) 1000"
    by (simp add: float_mul_def binary64_round_nonneg)
  have "real_mod s 1 \<le> 1 - 1 / 2 ^ 53" using assms by (rule binary64_frac_bound)
  then have y1: "?y \<le> 1000 - 1000 / 2 ^ 53" by simp
  consider "?y = 0" | "0 < ?y" "?y < 512" | "512 \<le> ?y" using y0 by linarith
  then have "binary64_round ?y < 1000"
  proof cases
    case 1
    then show ?thesis by (simp add: binary64_round_def)
  next
    case 2
    then have "binary64_round ?y \<le> 512" by (rule binary64_round_below_512)
    then show ?thesis by simp
  next
    case 3
    then have "binary64_round ?y \<le> 1000 - 1 / 2 ^ 43" using y1 by (rule binary64_round_below_1000)
    then show ?thesis by simp
  qed
  then show "float_mul (real_mod s 1) 1000 < 1000" by (simp add: float_mul_def)
qed


lemma binary64_round_of_int:
  assumes "\<bar>k\<bar> < 2 ^ 53"
  shows "binary64_round (of_int k) = of_int k"
proof (cases "k = 0")
  case True
  then show ?thesis by (simp add: binary64_round_def)
next
  case False
  let ?y = "real_of_int k"
  let ?e = "binary64_exponent ?y"
  have ypos: "0 < \<bar>?y\<bar>" using False by simp
  have "1 \<le> \<bar>k\<bar>" using False by simp
  then have y1: "1 \<le> \<bar>?y\<bar>" by (metis of_int_1_le_iff of_int_abs)
  have "\<bar>?y\<bar> < 2 powr 53"
  proof -
    have "real_of_int \<bar>k\<bar> < real_of_int (2 ^ 53)" using assms by (simp only: of_int_less_iff)
    then show ?thesis by simp
  qed
  with ypos have "log 2 \<bar>?y\<bar> < 53" by (simp add: log_less_iff)
  then have hi: "\<lfloor>log 2 \<bar>?y\<bar>\<rfloor> < 53" by (simp add: floor_less_iff)
  have "0 \<le> log 2 \<bar>?y\<bar>" using y1 by simp
  then have lo: "0 \<le> \<lfloor>log 2 \<bar>?y\<bar>\<rfloor>" by simp
  from hi lo have e: "?e = \<lfloor>log 2 \<bar>?y\<bar>\<rfloor> - 52" and e0: "?e \<le> 0"
    by (simp_all add: binary64_exponent_def)
  have "(2::real) powi (- ?e) = 2 ^ nat (- ?e)" using e0 by (simp add: power_int_def)
  then have q: "(2::real) powi ?e = inverse (2 ^ nat (- ?e))"
    using power_int_minus[of "2::real" "- ?e"] by simp
  then have "?y / 2 powi ?e = of_int (k * 2 ^ nat (- ?e))"
    by (simp add: divide_inverse)
  then have "round_half_even (?y / 2 powi ?e) = k * 2 ^ nat (- ?e)"
    by (simp only: round_half_even_of_int)
  then have "binary64_round ?y = of_int (k * 2 ^ nat (- ?e)) * 2 powi ?e"
    using False by (simp add: binary64_round_def)
  also have "\<dots> = ?y * (2 ^ nat (- ?e) * 2 powi ?e)" by simp
  also have "(2::real) ^ nat (- ?e) * 2 powi ?e = 1"
    unfolding q by simp
  finally show ?thesis by simp
qed

lemma binary64_round_numeral:
  "(numeral n :: int) < 2 ^ 53 \<Longrightarrow> binary64_round (numeral n) = numeral n"
  using binary64_round_of_int[of "numeral n"] by simp

lemma binary64_round_0: "binary64_round 0 = 0"
  by (simp add: binary64_round_def)


section \<open>Python's division and remainder on floats\<close>

lemma round_half_even_ge: "of_int N \<le> x \<Longrightarrow> N \<le> round_half_even x"
proof -
  assume "of_int N \<le> x"
  then have "N \<le> \<lfloor>x\<rfloor>" by (simp add: le_floor_iff)
  moreover have "\<lfloor>x\<rfloor> \<le> round_half_even x" by (simp add: round_half_even_def Let_def)
  ultimately show ?thesis by linarith
qed

lemma round_half_even_up:
  assumes "of_int N - 1/2 \<le> x" and "x < of_int N" and "even N"
  shows "round_half_even x = N"
proof -
  have fl: "\<lfloor>x\<rfloor> = N - 1" using assms(1,2) by (simp add: floor_eq_iff)
  have odd: "odd (N - 1)" using assms(3) by simp
  have "1/2 \<le> x - of_int (N - 1)" using assms(1) by simp
  then show ?thesis using odd unfolding round_half_even_def Let_def fl by auto
qed

lemma c_fmod_nonneg: "0 \<le> a \<Longrightarrow> 0 < b \<Longrightarrow> c_fmod a b = real_mod a b"
  by (simp add: c_fmod_def real_mod_def)

lemma py_mod_exact: "0 \<le> a \<Longrightarrow> 0 < b \<Longrightarrow> py_mod a b = real_mod a b"
  using real_mod_range(1)[of b a] by (simp add: py_mod_def c_fmod_nonneg Let_def)

lemma py_floordiv_exact:
  assumes "0 \<le> a" and "a < 2 ^ 53" and "0 < n"
  shows "py_floordiv a (of_int n) = of_int \<lfloor>a / of_int n\<rfloor>"
proof -
  let ?b = "real_of_int n"
  let ?q = "\<lfloor>a / ?b\<rfloor>"
  have b: "0 < ?b" using assms(3) by simp
  have md: "c_fmod a ?b = real_mod a ?b" using assms(1) b by (rule c_fmod_nonneg)
  have md0: "0 \<le> real_mod a ?b" using b by (rule real_mod_range(1))
  have q0: "0 \<le> ?q" using assms(1) b by simp
  have sub: "a - real_mod a ?b = of_int (n * ?q)" by (simp add: real_mod_def)
  have le: "real_of_int (n * ?q) \<le> a" using md0 sub by linarith
  have "real_of_int (n * ?q) < real_of_int (2 ^ 53)" using le assms(2) by simp
  then have nq: "n * ?q < 2 ^ 53" by (simp only: of_int_less_iff)
  have nq0: "0 \<le> n * ?q" using assms(3) q0 by simp
  have "?q \<le> n * ?q" using assms(3) q0 by (simp add: mult_le_cancel_right1)
  with nq have qb: "?q < 2 ^ 53" by linarith
  have fsub: "float_sub a (real_mod a ?b) = of_int (n * ?q)"
    unfolding float_sub_def sub using nq nq0 by (intro binary64_round_of_int) simp
  have "of_int (n * ?q) / ?b = real_of_int ?q" using assms(3) by simp
  then have fdiv: "float_div (of_int (n * ?q)) ?b = of_int ?q"
    unfolding float_div_def using qb q0 by (simp add: binary64_round_of_int)
  have z: "float_sub (of_int ?q) (of_int ?q) = 0"
    by (simp add: float_sub_def binary64_round_def)
  show ?thesis
    unfolding py_floordiv_def md Let_def fsub fdiv using md0 b z by simp
qed

lemma py_floordiv_numeral:
  "0 \<le> a \<Longrightarrow> a < 2 ^ 53 \<Longrightarrow> py_floordiv a (numeral k) = of_int \<lfloor>a / numeral k\<rfloor>"
  using py_floordiv_exact[of a "numeral k"] by simp

lemma floor_binary64_round:
  assumes "0 < y" and "y < 1024"
  shows "\<lfloor>binary64_round y\<rfloor> =
           (if of_int \<lfloor>y\<rfloor> + 1 - y \<le> 2 powi binary64_exponent y / 2 then \<lfloor>y\<rfloor> + 1 else \<lfloor>y\<rfloor>)"
proof -
  let ?e = "binary64_exponent y"
  let ?q = "(2::real) powi ?e"
  let ?k = "\<lfloor>y\<rfloor>"
  define P :: int where "P = 2 ^ nat (- ?e)"
  let ?n = "y / ?q"
  have "log 2 y < 10"
  proof -
    have "y < 2 powr 10" using assms(2) by simp
    with assms(1) show ?thesis by (simp add: log_less_iff)
  qed
  then have "\<lfloor>log 2 y\<rfloor> < 10" by (simp add: floor_less_iff)
  with assms(1) have e: "?e \<le> - 43" by (simp add: binary64_exponent_def)
  have q: "0 < ?q" by simp
  have "(2::real) powi (- ?e) = 2 ^ nat (- ?e)" using e by (simp add: power_int_def)
  then have qP: "?q = inverse (of_int P)"
    using power_int_minus[of "2::real" "- ?e"] by (simp add: P_def)
  have Ppos: "0 < P" by (simp add: P_def)
  have Peven: "even P" using e by (simp add: P_def)
  have n: "?n = y * of_int P" unfolding qP by (simp add: divide_inverse)
  have P1: "of_int P * ?q = 1" unfolding qP using Ppos by simp
  have fl: "binary64_round y = of_int (round_half_even ?n) * ?q"
    using assms(1) by (simp add: binary64_round_def)
  have lo: "real_of_int (?k * P) \<le> ?n"
  proof -
    have "of_int ?k \<le> y" by simp
    then have "of_int ?k * real_of_int P \<le> y * of_int P"
      using Ppos by (intro mult_right_mono) simp_all
    then show ?thesis by (simp add: n)
  qed
  have hi: "?n < real_of_int ((?k + 1) * P)"
  proof -
    have "y < of_int ?k + 1" by linarith
    then have "y * real_of_int P < (of_int ?k + 1) * of_int P"
      using Ppos by (intro mult_strict_right_mono) simp_all
    then show ?thesis by (simp add: n)
  qed
  have cond: "of_int ?k + 1 - y \<le> ?q / 2 \<longleftrightarrow> real_of_int ((?k + 1) * P) - 1/2 \<le> ?n"
  proof -
    have "of_int ?k + 1 - y \<le> ?q / 2 \<longleftrightarrow> (of_int ?k + 1 - y) * of_int P \<le> ?q / 2 * of_int P"
      using Ppos by simp
    also have "?q / 2 * of_int P = 1/2" using P1 by (simp add: mult.commute)
    also have "(of_int ?k + 1 - y) * of_int P = real_of_int ((?k + 1) * P) - ?n"
      by (simp add: n algebra_simps)
    finally show ?thesis by linarith
  qed
  show ?thesis
  proof (cases "of_int ?k + 1 - y \<le> ?q / 2")
    case True
    then have "real_of_int ((?k + 1) * P) - 1/2 \<le> ?n" by (simp only: cond)
    moreover have "even ((?k + 1) * P)" using Peven by simp
    ultimately have "round_half_even ?n = (?k + 1) * P" using hi by (intro round_half_even_up)
    then have "binary64_round y = of_int (?k + 1) * (of_int P * ?q)" by (simp add: fl)
    then have "binary64_round y = of_int (?k + 1)" by (simp only: P1 mult_1_right)
    then have "\<lfloor>binary64_round y\<rfloor> = ?k + 1" by (simp only: floor_of_int)
    with True show ?thesis by simp
  next
    case False
    then have "?n < real_of_int ((?k + 1) * P) - 1/2" using cond by linarith
    then have "?n < real_of_int ((?k + 1) * P - 1) + 1/2" by simp
    then have up: "round_half_even ?n \<le> (?k + 1) * P - 1" by (rule round_half_even_le)
    have dn: "?k * P \<le> round_half_even ?n" using lo by (rule round_half_even_ge)
    let ?r = "round_half_even ?n"
    have "real_of_int (?k * P) \<le> real_of_int ?r" using dn by (simp only: of_int_le_iff)
    then have "real_of_int (?k * P) * ?q \<le> of_int ?r * ?q"
      using q by (intro mult_right_mono) simp_all
    moreover have "real_of_int (?k * P) * ?q = of_int ?k * (of_int P * ?q)" by simp
    ultimately have ge: "of_int ?k \<le> binary64_round y" by (simp only: P1 mult_1_right fl)
    have "?r < (?k + 1) * P" using up by simp
    then have "real_of_int ?r < real_of_int ((?k + 1) * P)" by (simp only: of_int_less_iff)
    then have "of_int ?r * ?q < real_of_int ((?k + 1) * P) * ?q"
      using q by (intro mult_strict_right_mono) simp_all
    moreover have "real_of_int ((?k + 1) * P) * ?q = of_int (?k + 1) * (of_int P * ?q)" by simp
    ultimately have lt: "binary64_round y < of_int (?k + 1)" by (simp only: P1 mult_1_right fl)
    from ge lt have "\<lfloor>binary64_round y\<rfloor> = ?k" by (simp add: floor_eq_iff)
    with False show ?thesis by simp
  qed
qed

lemma millis_spec:
  assumes "is_binary64 s" and "0 \<le> s"
  shows "\<lfloor>float_mul (real_mod s 1) 1000\<rfloor> = spec_millis s"
proof -
  let ?y = "real_mod s 1 * 1000"
  have "0 \<le> real_mod s 1" using real_mod_range(1)[of 1 s] by simp
  then have y0: "0 \<le> ?y" by simp
  have "real_mod s 1 \<le> 1 - 1 / 2 ^ 53" using assms by (rule binary64_frac_bound)
  then have y1: "?y < 1024" by simp
  show ?thesis
  proof (cases "?y = 0")
    case True
    then show ?thesis by (simp add: float_mul_def spec_millis_def binary64_round_def)
  next
    case False
    with y0 have pos: "0 < ?y" by simp
    from pos y1 have "\<lfloor>binary64_round ?y\<rfloor> =
        (if of_int \<lfloor>?y\<rfloor> + 1 - ?y \<le> 2 powi binary64_exponent ?y / 2
         then \<lfloor>?y\<rfloor> + 1 else \<lfloor>?y\<rfloor>)"
      by (rule floor_binary64_round)
    with pos show ?thesis by (simp add: float_mul_def spec_millis_def Let_def)
  qed
qed


section \<open>Times of particular floats\<close>

text \<open>
  The floats that the decimal literals \<open>3661.9994\<close>, \<open>59.9996\<close>, \<open>0.9995\<close>, \<open>1.001\<close>
  and \<open>0.009\<close> denote, the float \<open>2e19\<close>, and their times as Python prints them.
\<close>

lemmas fmt_eval = format_d_def digits_small digits_large replicate_2 replicate_3 ascii_def Let_def

lemmas time_eval = seconds_to_srt_time_def py_int_def py_floordiv_numeral py_mod_exact
  real_mod_def float_mul_def binary64_round_numeral binary64_round_0 fmt_eval

lemma srt_time_0: "seconds_to_srt_time 0 = ascii ''00:00:00,000''"
  by (simp add: time_eval)

lemma srt_time_1_5: "seconds_to_srt_time (3/2) = ascii ''00:00:01,500''"
  by (simp add: time_eval)

lemma literal_3661_9994:
  "binary64_round (36619994 / 10000) = 8052821842417471 / 2199023255552"
  using binary64_round_eval[of "11" "36619994 / 10000"]
  by (simp add: round_half_even_def inverse_eq_divide)

lemma binary64_3661_9994: "is_binary64 (8052821842417471 / 2199023255552)"
  using binary64_round_eval[of "11" "8052821842417471 / 2199023255552"]
  by (simp add: is_binary64_def round_half_even_def inverse_eq_divide)

lemma millis_3661_9994:
  "float_mul (py_mod (8052821842417471 / 2199023255552) 1) 1000 = 274712980199875 / 274877906944"
proof -
  have pm: "py_mod (8052821842417471 / 2199023255552) 1 = 2197703841599 / 2199023255552"
    by (simp add: py_mod_exact real_mod_def)
  have fm: "float_mul (2197703841599 / 2199023255552) 1000 = 274712980199875 / 274877906944"
    using binary64_round_eval[of "9" "2197703841599 / 2199023255552 * 1000"]
    by (simp add: float_mul_def round_half_even_def inverse_eq_divide)
  show ?thesis unfolding pm by (rule fm)
qed

lemma srt_time_3661_9994:
  "seconds_to_srt_time (8052821842417471 / 2199023255552) = ascii ''01:01:01,999''"
proof -
  let ?s = "8052821842417471 / 2199023255552 :: real"
  have ms: "py_int (float_mul (py_mod ?s 1) 1000) = 999"
    unfolding millis_3661_9994 by (simp add: py_int_def)
  have h: "py_int (py_floordiv ?s 3600) = 1" by (simp add: py_int_def py_floordiv_numeral)
  have mi: "py_int (py_floordiv (py_mod ?s 3600) 60) = 1"
    by (simp add: py_int_def py_floordiv_numeral py_mod_exact real_mod_def)
  have se: "py_int (py_mod ?s 60) = 1"
    by (simp add: py_int_def py_mod_exact real_mod_def)
  show ?thesis
    unfolding seconds_to_srt_time_def Let_def h mi se ms
    by (simp add: fmt_eval)
qed

lemma literal_59_9996:
  "binary64_round (599996 / 10000) = 4222096503162169 / 70368744177664"
  using binary64_round_eval[of "5" "599996 / 10000"]
  by (simp add: round_half_even_def inverse_eq_divide)

lemma binary64_59_9996: "is_binary64 (4222096503162169 / 70368744177664)"
  using binary64_round_eval[of "5" "4222096503162169 / 70368744177664"]
  by (simp add: is_binary64_def round_half_even_def inverse_eq_divide)

lemma millis_59_9996:
  "float_mul (py_mod (4222096503162169 / 70368744177664) 1) 1000 = 8792574584999125 / 8796093022208"
proof -
  have pm: "py_mod (4222096503162169 / 70368744177664) 1 = 70340596679993 / 70368744177664"
    by (simp add: py_mod_exact real_mod_def)
  have fm: "float_mul (70340596679993 / 70368744177664) 1000 = 8792574584999125 / 8796093022208"
    using binary64_round_eval[of "9" "70340596679993 / 70368744177664 * 1000"]
    by (simp add: float_mul_def round_half_even_def inverse_eq_divide)
  show ?thesis unfolding pm by (rule fm)
qed

lemma srt_time_59_9996:
  "seconds_to_srt_time (4222096503162169 / 70368744177664) = ascii ''00:00:59,999''"
proof -
  let ?s = "4222096503162169 / 70368744177664 :: real"
  have ms: "py_int (float_mul (py_mod ?s 1) 1000) = 999"
    unfolding millis_59_9996 by (simp add: py_int_def)
  have h: "py_int (py_floordiv ?s 3600) = 0" by (simp add: py_int_def py_floordiv_numeral)
  have mi: "py_int (py_floordiv (py_mod ?s 3600) 60) = 0"
    by (simp add: py_int_def py_floordiv_numeral py_mod_exact real_mod_def)
  have se: "py_int (py_mod ?s 60) = 59"
    by (simp add: py_int_def py_mod_exact real_mod_def)
  show ?thesis
    unfolding seconds_to_srt_time_def Let_def h mi se ms
    by (simp add: fmt_eval)
qed

lemma literal_0_9995:
  "binary64_round (9995 / 10000) = 4501347827556811 / 4503599627370496"
  using binary64_round_eval[of "- 1" "9995 / 10000"]
  by (simp add: round_half_even_def inverse_eq_divide)

lemma binary64_0_9995: "is_binary64 (4501347827556811 / 4503599627370496)"
  using binary64_round_eval[of "- 1" "4501347827556811 / 4503599627370496"]
  by (simp add: is_binary64_def round_half_even_def inverse_eq_divide)

lemma millis_0_9995:
  "float_mul (py_mod (4501347827556811 / 4503599627370496) 1) 1000 = 1999 / 2"
proof -
  have pm: "py_mod (4501347827556811 / 4503599627370496) 1 = 4501347827556811 / 4503599627370496"
    by (simp add: py_mod_exact real_mod_def)
  have fm: "float_mul (4501347827556811 / 4503599627370496) 1000 = 1999 / 2"
    using binary64_round_eval[of "9" "4501347827556811 / 4503599627370496 * 1000"]
    by (simp add: float_mul_def round_half_even_def inverse_eq_divide)
  show ?thesis unfolding pm by (rule fm)
qed

lemma srt_time_0_9995:
  "seconds_to_srt_time (4501347827556811 / 4503599627370496) = ascii ''00:00:00,999''"
proof -
  let ?s = "4501347827556811 / 4503599627370496 :: real"
  have ms: "py_int (float_mul (py_mod ?s 1) 1000) = 999"
    unfolding millis_0_9995 by (simp add: py_int_def)
  have h: "py_int (py_floordiv ?s 3600) = 0" by (simp add: py_int_def py_floordiv_numeral)
  have mi: "py_int (py_floordiv (py_mod ?s 3600) 60) = 0"
    by (simp add: py_int_def py_floordiv_numeral py_mod_exact real_mod_def)
  have se: "py_int (py_mod ?s 60) = 0"
    by (simp add: py_int_def py_mod_exact real_mod_def)
  show ?thesis
    unfolding seconds_to_srt_time_def Let_def h mi se ms
    by (simp add: fmt_eval)
qed

lemma literal_1_001:
  "binary64_round (1001 / 1000) = 2254051613498933 / 2251799813685248"
  using binary64_round_eval[of "0" "1001 / 1000"]
  by (simp add: round_half_even_def inverse_eq_divide)

lemma binary64_1_001: "is_binary64 (2254051613498933 / 2251799813685248)"
  using binary64_round_eval[of "0" "2254051613498933 / 2251799813685248"]
  by (simp add: is_binary64_def round_half_even_def inverse_eq_divide)

lemma millis_1_001:
  "float_mul (py_mod (2254051613498933 / 2251799813685248) 1) 1000 = 281474976710625 / 281474976710656"
proof -
  have pm: "py_mod (2254051613498933 / 2251799813685248) 1 = 2251799813685 / 2251799813685248"
    by (simp add: py_mod_exact real_mod_def)
  have fm: "float_mul (2251799813685 / 2251799813685248) 1000 = 281474976710625 / 281474976710656"
    using binary64_round_eval[of "- 1" "2251799813685 / 2251799813685248 * 1000"]
    by (simp add: float_mul_def round_half_even_def inverse_eq_divide)
  show ?thesis unfolding pm by (rule fm)
qed

lemma srt_time_1_001:
  "seconds_to_srt_time (2254051613498933 / 2251799813685248) = ascii ''00:00:01,000''"
proof -
  let ?s = "2254051613498933 / 2251799813685248 :: real"
  have ms: "py_int (float_mul (py_mod ?s 1) 1000) = 0"
    unfolding millis_1_001 by (simp add: py_int_def)
  have h: "py_int (py_floordiv ?s 3600) = 0" by (simp add: py_int_def py_floordiv_numeral)
  have mi: "py_int (py_floordiv (py_mod ?s 3600) 60) = 0"
    by (simp add: py_int_def py_floordiv_numeral py_mod_exact real_mod_def)
  have se: "py_int (py_mod ?s 60) = 1"
    by (simp add: py_int_def py_mod_exact real_mod_def)
  show ?thesis
    unfolding seconds_to_srt_time_def Let_def h mi se ms
    by (simp add: fmt_eval)
qed

lemma literal_0_009:
  "binary64_round (9 / 1000) = 5188146770730811 / 576460752303423488"
  using binary64_round_eval[of "- 7" "9 / 1000"]
  by (simp add: round_half_even_def inverse_eq_divide)

lemma binary64_0_009: "is_binary64 (5188146770730811 / 576460752303423488)"
  using binary64_round_eval[of "- 7" "5188146770730811 / 576460752303423488"]
  by (simp add: is_binary64_def round_half_even_def inverse_eq_divide)

lemma millis_0_009:
  "float_mul (py_mod (5188146770730811 / 576460752303423488) 1) 1000 = 9"
proof -
  have pm: "py_mod (5188146770730811 / 576460752303423488) 1 = 5188146770730811 / 576460752303423488"
    by (simp add: py_mod_exact real_mod_def)
  have fm: "float_mul (5188146770730811 / 576460752303423488) 1000 = 9"
    using binary64_round_eval[of "3" "5188146770730811 / 576460752303423488 * 1000"]
    by (simp add: float_mul_def round_half_even_def inverse_eq_divide)
  show ?thesis unfolding pm by (rule fm)
qed

lemma srt_time_0_009:
  "seconds_to_srt_time (5188146770730811 / 576460752303423488) = ascii ''00:00:00,009''"
proof -
  let ?s = "5188146770730811 / 576460752303423488 :: real"
  have ms: "py_int (float_mul (py_mod ?s 1) 1000) = 9"
    unfolding millis_0_009 by (simp add: py_int_def)
  have h: "py_int (py_floordiv ?s 3600) = 0" by (simp add: py_int_def py_floordiv_numeral)
  have mi: "py_int (py_floordiv (py_mod ?s 3600) 60) = 0"
    by (simp add: py_int_def py_floordiv_numeral py_mod_exact real_mod_def)
  have se: "py_int (py_mod ?s 60) = 0"
    by (simp add: py_int_def py_mod_exact real_mod_def)
  show ?thesis
    unfolding seconds_to_srt_time_def Let_def h mi se ms
    by (simp add: fmt_eval)
qed

lemma binary64_2e19: "is_binary64 20000000000000000000"
  using binary64_round_eval[of 64 20000000000000000000]
  by (simp add: is_binary64_def round_half_even_def inverse_eq_divide)

lemma floordiv_2e19: "py_floordiv 20000000000000000000 3600 = 5555555555555556"
proof -
  have md: "c_fmod 20000000000000000000 3600 = 2000" by (simp add: c_fmod_def)
  have fs: "float_sub 20000000000000000000 2000 = 20000000000000000000"
    using binary64_round_eval[of 64 "20000000000000000000 - 2000"]
    by (simp add: float_sub_def round_half_even_def inverse_eq_divide)
  have fd: "float_div 20000000000000000000 3600 = 5555555555555556"
    using binary64_round_eval[of 52 "20000000000000000000 / 3600"]
    by (simp add: float_div_def round_half_even_def inverse_eq_divide)
  have z: "float_sub 5555555555555556 5555555555555556 = 0"
    by (simp add: float_sub_def binary64_round_def)
  show ?thesis
    unfolding py_floordiv_def Let_def md fs fd by (simp add: z)
qed

lemma srt_time_2e19:
  "seconds_to_srt_time 20000000000000000000 = ascii ''5555555555555556:33:20,000''"
proof -
  let ?s = "20000000000000000000 :: real"
  have h: "py_int (py_floordiv ?s 3600) = 5555555555555556"
    unfolding floordiv_2e19 by (simp add: py_int_def)
  have mi: "py_int (py_floordiv (py_mod ?s 3600) 60) = 33"
    by (simp add: py_int_def py_floordiv_numeral py_mod_exact real_mod_def)
  have se: "py_int (py_mod ?s 60) = 20"
    by (simp add: py_int_def py_mod_exact real_mod_def)
  have ms: "py_int (float_mul (py_mod ?s 1) 1000) = 0"
    by (simp add: py_int_def py_mod_exact real_mod_def float_mul_def binary64_round_0)
  show ?thesis
    unfolding seconds_to_srt_time_def Let_def h mi se ms
    by (simp add: fmt_eval)
qed

lemma py_mod_negative: "py_mod (- (1 / 2 ^ 70)) 60 = 60"
proof -
  have md: "c_fmod (- (1 / 2 ^ 70)) 60 = - (1 / 2 ^ 70)"
    by (simp add: c_fmod_def ceiling_def)
  have fa: "float_add (- (1 / 2 ^ 70)) 60 = 60"
    using binary64_round_eval[of 5 "- (1 / 2 ^ 70) + 60"]
    by (simp add: float_add_def round_half_even_def inverse_eq_divide)
  show ?thesis unfolding py_mod_def Let_def md fa by simp
qed


section \<open>The lines of the SRT output\<close>

lemma join_butlast: "join [c] ls = butlast (concat (map (\<lambda>l. l @ [c]) ls))"
proof (induction ls)
  case Nil
  then show ?case by simp
next
  case (Cons x xs)
  show ?case
  proof (cases "xs = []")
    case True
    then show ?thesis by simp
  next
    case False
    then have "concat (map (\<lambda>l. l @ [c]) xs) \<noteq> []" by (cases xs) auto
    then have "butlast (x @ [c] @ concat (map (\<lambda>l. l @ [c]) xs))
               = x @ [c] @ butlast (concat (map (\<lambda>l. l @ [c]) xs))"
      by (simp add: butlast_append)
    with False Cons.IH show ?thesis by (simp add: join_Cons)
  qed
qed

lemma srt_loop_lines: "srt_loop (int i) segs acc = acc @ srt_lines_from i segs"
proof (induction segs arbitrary: i acc)
  case Nil
  then show ?case by simp
next
  case (Cons seg segs)
  have next_index: "int i + 1 = int (Suc i)" by simp
  have "srt_loop (int i + 1) segs acc' = acc' @ srt_lines_from (Suc i) segs" for acc'
    unfolding next_index by (rule Cons.IH)
  then show ?case by (simp add: Let_def format_d_index)
qed

lemma srt_lines_blocks:
  "concat (map (\<lambda>l. l @ [10]) (srt_lines_from i segs)) = spec_srt_blocks i segs"
  by (induction segs arbitrary: i) (simp_all add: spec_srt_block_def)


section \<open>Claims about the splitter\<close>

text \<open>
  Claim C1. For a positive \<open>max_words\<close> and input segments that all carry words, the
  call returns the concatenation, in input order, of what each input segment gives on
  its own: its words that are not blank after trimming, cut into consecutive chunks, and
  for each chunk one segment whose start is the start of the chunk's first word, whose
  end is the end of its last word, whose text is the trimmed word texts joined by a single
  space and whose words are the chunk itself. No chunk holds words of two input segments.
\<close>

theorem split_refines_spec:
  assumes "0 < max_words" and "\<forall>s\<in>set segs. has_words s"
  shows "split_segments_by_max_words segs max_words = Inr (spec_split segs (nat max_words))"
proof -
  from assms(1) have "0 < nat max_words" by simp
  then have "segment_loop segs (nat max_words) [] = Inr ([] @ spec_split segs (nat max_words))"
    using assms(2) by (rule segment_loop_spec)
  with assms(1) show ?thesis by (simp add: split_segments_by_max_words_def)
qed

text \<open>
  Three input segments, the middle one blank: two chunks for the first and the third,
  none for the second.
\<close>

theorem split_refines_spec_witness:
  "has_words ex_segment \<and> has_words ex_blank_segment \<and>
   split_segments_by_max_words [ex_segment, ex_blank_segment, ex_segment] 2
     = Inr [ex_out1, ex_out2, ex_out1, ex_out2]"
  using split_refines_spec[of 2 "[ex_segment, ex_blank_segment, ex_segment]"]
  by (simp add: ex_defs eval_defs)

text \<open>
  Claim C2. When the call succeeds, every output segment has at most \<open>max_words\<close> words
  (and at least one), and the output is the concatenation of one part for each input
  segment, the part being the output of the call on that segment alone, in which every
  segment but the last has exactly \<open>max_words\<close> words.
\<close>

theorem split_word_count_bound:
  assumes "split_segments_by_max_words segs max_words = Inr out"
  shows "(\<forall>seg\<in>set out. \<exists>ws. seg_words seg = Some ws \<and> ws \<noteq> [] \<and> length ws \<le> nat max_words) \<and>
         (\<exists>parts. length parts = length segs \<and> concat parts = out \<and>
            (\<forall>k<length segs.
               split_segments_by_max_words [segs ! k] max_words = Inr (parts ! k) \<and>
               (\<forall>j. Suc j < length (parts ! k) \<longrightarrow>
                  (\<exists>ws. seg_words (parts ! k ! j) = Some ws \<and> length ws = nat max_words))))"
proof -
  let ?m = "nat max_words"
  let ?parts = "map (spec_split_one ?m) segs"
  from assms have pos: "0 < max_words" and all: "\<forall>s\<in>set segs. has_words s"
    and out: "out = spec_split segs ?m"
    by (rule split_Inr_D)+
  have bound: "\<forall>seg\<in>set out. \<exists>ws. seg_words seg = Some ws \<and> ws \<noteq> [] \<and> length ws \<le> ?m"
    using out by (auto simp: spec_split_def dest: spec_split_one_words)
  have "\<forall>k<length segs.
          split_segments_by_max_words [segs ! k] max_words = Inr (?parts ! k) \<and>
          (\<forall>j. Suc j < length (?parts ! k) \<longrightarrow>
             (\<exists>ws. seg_words (?parts ! k ! j) = Some ws \<and> length ws = ?m))"
  proof (intro allI impI conjI)
    fix k assume k: "k < length segs"
    then have "has_words (segs ! k)" using all by simp
    with pos show "split_segments_by_max_words [segs ! k] max_words = Inr (?parts ! k)"
      using k by (simp add: split_single)
  next
    fix k j assume k: "k < length segs" and "Suc j < length (?parts ! k)"
    then show "\<exists>ws. seg_words (?parts ! k ! j) = Some ws \<and> length ws = ?m"
      by (simp add: spec_split_one_full)
  qed
  moreover have "length ?parts = length segs" by simp
  moreover have "concat ?parts = out" using out by (simp add: spec_split_def)
  ultimately have "\<exists>parts. length parts = length segs \<and> concat parts = out \<and>
            (\<forall>k<length segs.
               split_segments_by_max_words [segs ! k] max_words = Inr (parts ! k) \<and>
               (\<forall>j. Suc j < length (parts ! k) \<longrightarrow>
                  (\<exists>ws. seg_words (parts ! k ! j) = Some ws \<and> length ws = nat max_words)))"
    by blast
  with bound show ?thesis by blast
qed


theorem split_word_count_bound_witness:
  "split_segments_by_max_words [ex_segment] 2 = Inr [ex_out1, ex_out2] \<and>
   (\<exists>ws. seg_words ex_out1 = Some ws \<and> ws \<noteq> [] \<and> length ws \<le> nat 2) \<and>
   (\<exists>ws. seg_words ex_out2 = Some ws \<and> ws \<noteq> [] \<and> length ws \<le> nat 2)"
proof -
  have h: "split_segments_by_max_words [ex_segment] 2 = Inr [ex_out1, ex_out2]"
    using split_success[of 2 "[ex_segment]"] by (simp add: ex_defs eval_defs)
  from split_word_count_bound[OF h]
  have "\<forall>seg\<in>set [ex_out1, ex_out2].
          \<exists>ws. seg_words seg = Some ws \<and> ws \<noteq> [] \<and> length ws \<le> nat 2"
    by (rule conjunct1)
  with h show ?thesis by simp
qed

text \<open>
  Claim C9. When the call succeeds, the output is the concatenation of one part for each
  input segment (the output of the call on that segment alone), and the word lists of a
  part, concatenated in output order, are the input segment's words that are not empty
  after trimming, in their original order.
\<close>

theorem split_preserves_word_order:
  assumes "split_segments_by_max_words segs max_words = Inr out"
  shows "\<exists>parts. length parts = length segs \<and> concat parts = out \<and>
           (\<forall>k<length segs.
              split_segments_by_max_words [segs ! k] max_words = Inr (parts ! k) \<and>
              concat (map words_of (parts ! k))
                = filter (\<lambda>w. strip (w_word w) \<noteq> []) (words_of (segs ! k)))"
proof -
  let ?m = "nat max_words"
  let ?parts = "map (spec_split_one ?m) segs"
  from assms have pos: "0 < max_words" and all: "\<forall>s\<in>set segs. has_words s"
    and out: "out = spec_split segs ?m"
    by (rule split_Inr_D)+
  have "\<forall>k<length segs.
          split_segments_by_max_words [segs ! k] max_words = Inr (?parts ! k) \<and>
          concat (map words_of (?parts ! k))
            = filter (\<lambda>w. strip (w_word w) \<noteq> []) (words_of (segs ! k))"
  proof (intro allI impI conjI)
    fix k assume k: "k < length segs"
    then have "has_words (segs ! k)" using all by simp
    with pos show "split_segments_by_max_words [segs ! k] max_words = Inr (?parts ! k)"
      using k by (simp add: split_single)
    from pos have "0 < ?m" by simp
    then have "concat (map words_of (spec_split_one ?m (segs ! k)))
               = filter nonblank (words_of (segs ! k))"
      by (rule spec_split_one_concat)
    with k show "concat (map words_of (?parts ! k))
            = filter (\<lambda>w. strip (w_word w) \<noteq> []) (words_of (segs ! k))"
      by (simp add: nonblank_def[abs_def])
  qed
  moreover have "length ?parts = length segs" by simp
  moreover have "concat ?parts = out" using out by (simp add: spec_split_def)
  ultimately show ?thesis by blast
qed

theorem split_preserves_word_order_witness:
  "split_segments_by_max_words [ex_segment] 1
     = Inr [spec_segment [ex_a], spec_segment [ex_b], spec_segment [ex_c]] \<and>
   (\<exists>parts. length parts = length [ex_segment] \<and>
      concat parts = [spec_segment [ex_a], spec_segment [ex_b], spec_segment [ex_c]])"
proof -
  have h: "split_segments_by_max_words [ex_segment] 1
             = Inr [spec_segment [ex_a], spec_segment [ex_b], spec_segment [ex_c]]"
    using split_success[of 1 "[ex_segment]"] by (simp add: ex_defs eval_defs)
  from split_preserves_word_order[OF h] h show ?thesis by blast
qed

text \<open>
  Claim C3. A \<open>max_words\<close> that is not positive fails with the invalid-argument error
  whatever the input list is; with a positive \<open>max_words\<close>, an input list in which some
  segment has no word data fails as a whole with the missing-word-timestamps error, so no
  list is returned.
\<close>

theorem split_precondition_failures:
  "(max_words \<le> 0 \<longrightarrow> split_segments_by_max_words segs max_words = Inl InvalidArgument) \<and>
   (0 < max_words \<and> (\<exists>s\<in>set segs. seg_words s = None) \<longrightarrow>
      split_segments_by_max_words segs max_words = Inl MissingWordTimestamps)"
proof (intro conjI impI)
  assume "max_words \<le> 0"
  then show "split_segments_by_max_words segs max_words = Inl InvalidArgument"
    by (simp add: split_segments_by_max_words_def InvalidArgument_def)
next
  assume a: "0 < max_words \<and> (\<exists>s\<in>set segs. seg_words s = None)"
  then obtain s where "s \<in> set segs" and "seg_words s = None" by blast
  then have "s \<in> set segs" and "\<not> has_words s" by (simp_all add: has_words_def)
  then have "\<exists>s\<in>set segs. \<not> has_words s" by blast
  with a show "split_segments_by_max_words segs max_words = Inl MissingWordTimestamps"
    by (simp add: split_missing)
qed

theorem split_precondition_failures_witness:
  "split_segments_by_max_words [ex_no_words] 0 = Inl InvalidArgument \<and>
   split_segments_by_max_words [ex_segment] (- 3) = Inl InvalidArgument \<and>
   split_segments_by_max_words [ex_segment, ex_no_words, ex_segment] 2 = Inl MissingWordTimestamps"
  using split_precondition_failures[of 0 "[ex_no_words]"]
    split_precondition_failures[of "- 3" "[ex_segment]"]
    split_precondition_failures[of 2 "[ex_segment, ex_no_words, ex_segment]"]
  by (simp add: ex_no_words_def)

text \<open>
  Claim C10. With a positive \<open>max_words\<close>, an input list that contains a segment whose
  word list is present but empty fails with the missing-word-timestamps error, the same
  failure as when that segment's words are absent.
\<close>

theorem empty_words_raise:
  assumes "0 < max_words" and "k < length segs" and "seg_words (segs ! k) = Some []"
  shows "split_segments_by_max_words segs max_words = Inl MissingWordTimestamps \<and>
         split_segments_by_max_words (segs[k := (segs ! k)\<lparr>seg_words := None\<rparr>]) max_words
           = Inl MissingWordTimestamps"
proof
  from assms(2) have "segs ! k \<in> set segs" by simp
  moreover from assms(3) have "\<not> has_words (segs ! k)" by (simp add: has_words_def)
  ultimately have "\<exists>s\<in>set segs. \<not> has_words s" by blast
  with assms(1) show "split_segments_by_max_words segs max_words = Inl MissingWordTimestamps"
    by (rule split_missing)
  let ?segs = "segs[k := (segs ! k)\<lparr>seg_words := None\<rparr>]"
  from assms(2) have "(segs ! k)\<lparr>seg_words := None\<rparr> \<in> set ?segs" by (rule set_update_memI)
  moreover have "\<not> has_words ((segs ! k)\<lparr>seg_words := None\<rparr>)" by (simp add: has_words_def)
  ultimately have "\<exists>s\<in>set ?segs. \<not> has_words s" by blast
  with assms(1) show "split_segments_by_max_words ?segs max_words = Inl MissingWordTimestamps"
    by (rule split_missing)
qed

theorem empty_words_raise_witness:
  "split_segments_by_max_words [ex_segment, ex_empty_words] 2 = Inl MissingWordTimestamps \<and>
   split_segments_by_max_words [ex_segment, ex_no_words] 2 = Inl MissingWordTimestamps"
  using empty_words_raise[of 2 1 "[ex_segment, ex_empty_words]"]
  by (simp add: ex_empty_words_def ex_no_words_def)

text \<open>
  Claim C8, amended. An input segment whose word list is not empty and whose words all
  have a text that is empty after trimming contributes nothing and raises nothing: the
  call gives what it gives without that segment, and on that segment alone it returns
  the empty list, so there can be fewer output segments than input segments.
\<close>

theorem blank_segment_dropped:
  assumes "seg_words s = Some ws" and "ws \<noteq> []" and "\<forall>w\<in>set ws. strip (w_word w) = []"
  shows "split_segments_by_max_words (pre @ s # post) max_words
           = split_segments_by_max_words (pre @ post) max_words \<and>
         (0 < max_words \<longrightarrow> split_segments_by_max_words [s] max_words = Inr [])"
proof -
  have skip: "\<And>pre post. split_segments_by_max_words (pre @ s # post) max_words
           = split_segments_by_max_words (pre @ post) max_words"
    using assms by (simp add: split_segments_by_max_words_def segment_loop_skip_blank)
  from skip[of "[]" "[]"]
  have single: "split_segments_by_max_words [s] max_words = split_segments_by_max_words [] max_words"
    by simp
  have "0 < max_words \<longrightarrow> split_segments_by_max_words [] max_words = Inr []"
    by (simp add: split_segments_by_max_words_def)
  with single have "0 < max_words \<longrightarrow> split_segments_by_max_words [s] max_words = Inr []"
    by simp
  with skip show ?thesis by blast
qed

theorem blank_segment_dropped_witness:
  "split_segments_by_max_words [ex_segment, ex_blank_segment, ex_segment] 2
     = split_segments_by_max_words [ex_segment, ex_segment] 2 \<and>
   split_segments_by_max_words [ex_blank_segment] 2 = Inr []"
  using blank_segment_dropped[of ex_blank_segment "[ex_blank, ex_blank]" "[ex_segment]" "[ex_segment]" 2]
  by (simp add: ex_blank_segment_def ex_blank_def ascii_def strip_def isspace_def)

text \<open>
  Claim C8 as stated also covers a segment whose word list is empty, since all of its
  (no) words are blank; the call raises for that segment instead of dropping it.
\<close>

theorem blank_segment_empty_words_counterexample:
  "words_of ex_empty_words = [] \<and>
   split_segments_by_max_words [ex_empty_words] 1 = Inl MissingWordTimestamps"
  by (simp add: words_of_def ex_empty_words_def split_segments_by_max_words_def
      MissingWordTimestamps_def)


section \<open>Claims about the formatter\<close>

text \<open>
  Claim C4, amended. For a float \<open>s\<close> with \<open>0 \<le> s < 2 ^ 53\<close>, the SRT time is the four
  fields \<open>floor(s/3600)\<close>, \<open>floor((s mod 3600)/60)\<close>, \<open>floor(s mod 60)\<close> and the
  milliseconds, padded with zeros to 2, 2, 2 and 3 digits and separated by \<open>:\<close>, \<open>:\<close> and
  \<open>,\<close>. The milliseconds are \<open>floor((s mod 1)*1000)\<close>, or one more when the product lies
  within half a unit in the last place below the next whole number, because the product is
  rounded to binary64 before it is truncated. The fields never carry: minutes and seconds
  stay below 60 and milliseconds below 1000. In particular the times of \<open>0.0\<close>,
  \<open>3661.9994\<close> and \<open>59.9996\<close> are \<open>00:00:00,000\<close>, \<open>01:01:01,999\<close> and \<open>00:00:59,999\<close>.
\<close>

theorem srt_time_fields:
  assumes "is_binary64 s" and "0 \<le> s" and "s < 2 ^ 53"
  shows "seconds_to_srt_time s =
           zero_pad 2 (nat \<lfloor>s / 3600\<rfloor>) @ ascii '':'' @
           zero_pad 2 (nat \<lfloor>real_mod s 3600 / 60\<rfloor>) @ ascii '':'' @
           zero_pad 2 (nat \<lfloor>real_mod s 60\<rfloor>) @ ascii '','' @
           zero_pad 3 (nat (spec_millis s)) \<and>
         0 \<le> \<lfloor>real_mod s 3600 / 60\<rfloor> \<and> \<lfloor>real_mod s 3600 / 60\<rfloor> < 60 \<and>
         0 \<le> \<lfloor>real_mod s 60\<rfloor> \<and> \<lfloor>real_mod s 60\<rfloor> < 60 \<and>
         0 \<le> spec_millis s \<and> spec_millis s < 1000 \<and>
         \<lfloor>real_mod s 1 * 1000\<rfloor> \<le> spec_millis s \<and>
         spec_millis s \<le> \<lfloor>real_mod s 1 * 1000\<rfloor> + 1 \<and>
         seconds_to_srt_time 0 = ascii ''00:00:00,000'' \<and>
         seconds_to_srt_time (binary64_round (36619994 / 10000)) = ascii ''01:01:01,999'' \<and>
         seconds_to_srt_time (binary64_round (599996 / 10000)) = ascii ''00:00:59,999''"
proof -
  have h0: "0 \<le> \<lfloor>s / 3600\<rfloor>" using assms(2) by simp
  have m0: "0 \<le> real_mod s 3600" using real_mod_range(1)[of 3600 s] by simp
  have m1: "real_mod s 3600 < 3600" using real_mod_range(2)[of 3600 s] by simp
  have s0: "0 \<le> real_mod s 60" using real_mod_range(1)[of 60 s] by simp
  have s1: "real_mod s 60 < 60" using real_mod_range(2)[of 60 s] by simp
  have x0: "0 \<le> real_mod s 1" using real_mod_range(1)[of 1 s] by simp
  have l0: "0 \<le> float_mul (real_mod s 1) 1000"
    using assms(1,2) by (rule float_mul_millis_bound(1))
  have l1: "float_mul (real_mod s 1) 1000 < 1000"
    using assms(1,2) by (rule float_mul_millis_bound(2))
  have ms: "\<lfloor>float_mul (real_mod s 1) 1000\<rfloor> = spec_millis s"
    using assms(1,2) by (rule millis_spec)
  have hours: "py_int (py_floordiv s 3600) = \<lfloor>s / 3600\<rfloor>"
    using assms(2,3) h0 by (simp add: py_floordiv_numeral py_int_def)
  have m2: "real_mod s 3600 < 2 ^ 53" using m1 by simp
  have mf: "0 \<le> \<lfloor>real_mod s 3600 / 60\<rfloor>" using m0 by simp
  have minutes: "py_int (py_floordiv (py_mod s 3600) 60) = \<lfloor>real_mod s 3600 / 60\<rfloor>"
    using assms(2) m0 m2 mf by (simp add: py_mod_exact py_floordiv_numeral py_int_def)
  have secs: "py_int (py_mod s 60) = \<lfloor>real_mod s 60\<rfloor>"
    using assms(2) s0 by (simp add: py_mod_exact py_int_floor)
  have millis: "py_int (float_mul (py_mod s 1) 1000) = spec_millis s"
    using assms(2) l0 ms by (simp add: py_mod_exact py_int_floor)
  have f: "0 \<le> \<lfloor>real_mod s 60\<rfloor>" "0 \<le> spec_millis s"
    using s0 l0 ms[symmetric] by simp_all
  have u: "\<lfloor>real_mod s 3600 / 60\<rfloor> < 60" "\<lfloor>real_mod s 60\<rfloor> < 60" "spec_millis s < 1000"
    using m1 s1 l1 ms[symmetric] by (simp_all add: floor_less_iff)
  have fields: "seconds_to_srt_time s =
           zero_pad 2 (nat \<lfloor>s / 3600\<rfloor>) @ ascii '':'' @
           zero_pad 2 (nat \<lfloor>real_mod s 3600 / 60\<rfloor>) @ ascii '':'' @
           zero_pad 2 (nat \<lfloor>real_mod s 60\<rfloor>) @ ascii '','' @
           zero_pad 3 (nat (spec_millis s))"
    unfolding seconds_to_srt_time_def Let_def hours minutes secs millis
    using h0 mf f by (simp only: format_d_zero_pad)
  have near: "\<lfloor>real_mod s 1 * 1000\<rfloor> \<le> spec_millis s"
    "spec_millis s \<le> \<lfloor>real_mod s 1 * 1000\<rfloor> + 1"
    by (simp_all add: spec_millis_def Let_def)
  have e1: "seconds_to_srt_time (binary64_round (36619994 / 10000)) = ascii ''01:01:01,999''"
    unfolding literal_3661_9994 by (rule srt_time_3661_9994)
  have e2: "seconds_to_srt_time (binary64_round (599996 / 10000)) = ascii ''00:00:59,999''"
    unfolding literal_59_9996 by (rule srt_time_59_9996)
  from fields mf f u near srt_time_0 e1 e2 show ?thesis by simp
qed

text \<open>
  The float written \<open>0.009\<close> lies just below \<open>9/1000\<close>; its product with \<open>1000\<close> is
  within half a unit in the last place of \<open>9\<close>, so the milliseconds are \<open>9\<close>.
\<close>

theorem srt_time_fields_witness:
  "is_binary64 (5188146770730811 / 576460752303423488) \<and>
   binary64_round (9 / 1000) = 5188146770730811 / 576460752303423488 \<and>
   spec_millis (5188146770730811 / 576460752303423488) = 9 \<and>
   seconds_to_srt_time (5188146770730811 / 576460752303423488) = ascii ''00:00:00,009''"
proof -
  let ?s = "5188146770730811 / 576460752303423488 :: real"
  have b: "is_binary64 ?s" by (rule binary64_0_009)
  have r: "(0::real) \<le> ?s" "?s < 2 ^ 53" by simp_all
  have sm: "spec_millis ?s = 9"
    using binary64_exponent_eq[of 3 "5188146770730811 / 576460752303423488 * 1000"]
    by (simp add: spec_millis_def real_mod_def Let_def inverse_eq_divide)
  from srt_time_fields[OF b r]
  have "seconds_to_srt_time ?s =
           zero_pad 2 (nat \<lfloor>?s / 3600\<rfloor>) @ ascii '':'' @
           zero_pad 2 (nat \<lfloor>real_mod ?s 3600 / 60\<rfloor>) @ ascii '':'' @
           zero_pad 2 (nat \<lfloor>real_mod ?s 60\<rfloor>) @ ascii '','' @
           zero_pad 3 (nat (spec_millis ?s))"
    by (rule conjunct1)
  then have t: "seconds_to_srt_time ?s = ascii ''00:00:00,009''"
    unfolding sm
    by (simp add: real_mod_def zero_pad_def digits_small digits_large replicate_2 ascii_def)
  from b literal_0_009 sm t show ?thesis by (intro conjI)
qed

text \<open>
  Claim C4 as stated gives the milliseconds as the floor of the exact product and the
  hours as the exact floor for every \<open>s \<ge> 0\<close>. At the float written \<open>0.009\<close> the exact
  floor is \<open>8\<close> and the code prints \<open>009\<close>; at the float \<open>2e19\<close> the exact floor of the hours
  is \<open>5555555555555555\<close> and the code prints \<open>5555555555555556\<close>.
\<close>

theorem srt_time_exact_floor_counterexample:
  "is_binary64 (5188146770730811 / 576460752303423488) \<and>
   \<lfloor>real_mod (5188146770730811 / 576460752303423488) 1 * 1000\<rfloor> = 8 \<and>
   seconds_to_srt_time (5188146770730811 / 576460752303423488) = ascii ''00:00:00,009'' \<and>
   is_binary64 20000000000000000000 \<and>
   \<lfloor>20000000000000000000 / 3600 :: real\<rfloor> = 5555555555555555 \<and>
   seconds_to_srt_time 20000000000000000000 = ascii ''5555555555555556:33:20,000''"
proof -
  have "\<lfloor>real_mod (5188146770730811 / 576460752303423488) 1 * 1000\<rfloor> = 8"
    by (simp add: real_mod_def)
  moreover have "\<lfloor>20000000000000000000 / 3600 :: real\<rfloor> = 5555555555555555" by simp
  ultimately show ?thesis
    using binary64_0_009 srt_time_0_009 binary64_2e19 srt_time_2e19 by (intro conjI)
qed

text \<open>
  Claim C6, amended. The SRT text of a transcript is the repeating block
  \<open><index>\n<start> --> <end>\n<text>\n\n\<close>, one block for each segment in order and
  numbered from 1, without the last newline: a blank line stands between two blocks, and
  the output ends with the newline that follows the last text. It is empty for a
  transcript with no segment.
\<close>

theorem format_srt_blocks:
  "format_srt t = butlast (spec_srt_blocks 1 (segments t))"
proof -
  have "srt_loop 1 (segments t) [] = srt_lines_from 1 (segments t)"
    using srt_loop_lines[of 1 "segments t" "[]"] by simp
  then have "format_srt t
             = butlast (concat (map (\<lambda>l. l @ [10]) (srt_lines_from 1 (segments t))))"
    by (simp add: format_srt_def join_butlast)
  then show ?thesis by (simp only: srt_lines_blocks)
qed

theorem format_srt_blocks_witness:
  "format_srt ex_transcript =
     ascii ''1'' @ [10] @ ascii ''00:00:00,000 --> 00:00:01,000'' @ [10] @ ascii ''hi'' @ [10] @
     [10] @
     ascii ''2'' @ [10] @ ascii ''00:00:00,000 --> 00:00:01,500'' @ [10] @ ascii ''a b c'' @ [10]"
  using format_srt_blocks[of ex_transcript]
  by (simp add: ex_transcript_def ex_no_words_def ex_segment_def spec_srt_block_def time_eval)

text \<open>
  Claim C6 as stated makes the output end with a blank line; for one segment the output
  ends after the newline of the text, one newline short of the block.
\<close>

theorem format_srt_final_newline_counterexample:
  "format_srt ex_short_transcript =
     ascii ''1'' @ [10] @ ascii ''00:00:00,000 --> 00:00:01,000'' @ [10] @ ascii ''hi'' @ [10] \<and>
   spec_srt_blocks 1 (segments ex_short_transcript) =
     ascii ''1'' @ [10] @ ascii ''00:00:00,000 --> 00:00:01,000'' @ [10] @ ascii ''hi'' @ [10] @ [10] \<and>
   format_srt ex_short_transcript \<noteq> spec_srt_blocks 1 (segments ex_short_transcript)"
  by (simp add: format_srt_def ex_short_transcript_def ex_no_words_def spec_srt_block_def time_eval)


section \<open>Claims about the data model\<close>

text \<open>
  Claim C5. The dictionary of a segment has no \<open>words\<close> key when the segment has no word
  data, and has it, holding the list of the words' dictionaries, whenever the words are
  present, the empty list included. The dictionary of a transcript always has the
  \<open>language\<close> key, holding \<open>None\<close> (JSON \<open>null\<close>) when no language was detected.
\<close>

theorem to_dict_words_and_language:
  "(seg_words s = None \<longrightarrow>
      dict_keys (segment_to_dict s) = [''start'', ''end'', ''text'']) \<and>
   (\<forall>ws. seg_words s = Some ws \<longrightarrow>
      dict_keys (segment_to_dict s) = [''start'', ''end'', ''text'', ''words''] \<and>
      dict_get (segment_to_dict s) ''words'' = Some (PList (map word_to_dict ws))) \<and>
   dict_keys (transcript_to_dict t) = [''language'', ''segments''] \<and>
   dict_get (transcript_to_dict t) ''language''
     = Some (case language t of None \<Rightarrow> PNone | Some l \<Rightarrow> PStr l)"
  by (simp add: segment_to_dict_def transcript_to_dict_def Let_def)

theorem to_dict_words_and_language_witness:
  "''words'' \<notin> set (dict_keys (segment_to_dict ex_no_words)) \<and>
   dict_get (segment_to_dict ex_empty_words) ''words'' = Some (PList []) \<and>
   dict_get (transcript_to_dict ex_short_transcript) ''language'' = Some PNone"
  using to_dict_words_and_language[of ex_no_words ex_short_transcript]
    to_dict_words_and_language[of ex_empty_words ex_short_transcript]
  by (simp add: ex_no_words_def ex_empty_words_def ex_short_transcript_def)

end
